theory Spec2Isabelle
  imports Main "HOL-Library.Sublist"
begin

section \<open>Strings\<close>

text \<open>
  A JavaScript string is a sequence of UTF-16 code units.  The development covers the
  strings whose code units are below 256: such a code unit is written as the
  \<^typ>\<open>char\<close> of that code, and a string as a \<^typ>\<open>string\<close>.  On these code units the
  ECMAScript notions used by the program are the following.
\<close>

definition TAB :: char where "TAB = CHR 0x09"
definition LF :: char where "LF = CHR 0x0A"
definition CR :: char where "CR = CHR 0x0D"
definition SP :: char where "SP = CHR 0x20"
definition BS :: char where "BS = CHR 0x5C"
definition LBRACE :: char where "LBRACE = CHR 0x7B"
definition RBRACE :: char where "RBRACE = CHR 0x7D"

text \<open>
  White space and line terminators (what \<^verbatim>\<open>trim()\<close> strips and what \<^verbatim>\<open>\s\<close> matches):
  TAB, LF, VT, FF, CR, SPACE and NO-BREAK SPACE.
\<close>

definition isWhite :: "char \<Rightarrow> bool" where
  "isWhite c \<longleftrightarrow> c \<in> set [CHR 0x09, CHR 0x0A, CHR 0x0B, CHR 0x0C, CHR 0x0D, CHR 0x20, CHR 0xA0]"

text \<open>\<^verbatim>\<open>String.prototype.trim\<close>.\<close>

definition trim :: "string \<Rightarrow> string" where
  "trim s = rev (dropWhile isWhite (rev (dropWhile isWhite s)))"

text \<open>
  \<^verbatim>\<open>String.prototype.toLowerCase\<close>: below 256 the letters with a lower-case partner are
  A-Z and 0xC0-0xDE without the multiplication sign 0xD7; the partner is 0x20 further.
\<close>

definition toLowerCase_char :: "char \<Rightarrow> char" where
  "toLowerCase_char c =
     (let n = (of_char c :: nat)
      in if (65 \<le> n \<and> n \<le> 90) \<or> (192 \<le> n \<and> n \<le> 222 \<and> n \<noteq> 215)
         then char_of (n + 32) else c)"

definition toLowerCase :: "string \<Rightarrow> string" where
  "toLowerCase s = map toLowerCase_char s"

text \<open>
  The canonicalisation of a code unit under the \<^verbatim>\<open>i\<close> flag of a regular expression
  without the \<^verbatim>\<open>u\<close> flag: the upper-case partner, except that a code unit from 128 on is
  never mapped below 128 and a partner beyond one code unit is not taken.  Below 256 this
  leaves a-z going to A-Z, 0xE0-0xFE without the division sign 0xF7 going 0x20 back, and
  every other code unit fixed or sent beyond 255 to a code unit that is the image of
  nothing else below 256 (0xB5 and 0xFF); the latter are kept as they are.
\<close>

definition canonicalize :: "char \<Rightarrow> char" where
  "canonicalize c =
     (let n = (of_char c :: nat)
      in if (97 \<le> n \<and> n \<le> 122) \<or> (224 \<le> n \<and> n \<le> 254 \<and> n \<noteq> 247)
         then char_of (n - 32) else c)"

definition isHexDigit :: "char \<Rightarrow> bool" where
  "isHexDigit c =
     (let n = (of_char c :: nat)
      in (48 \<le> n \<and> n \<le> 57) \<or> (97 \<le> n \<and> n \<le> 102) \<or> (65 \<le> n \<and> n \<le> 70))"

section \<open>Indentation: getDepth\<close>

text \<open>
  The loop of \<^verbatim>\<open>getDepth\<close> over the index \<open>i\<close> and the counter \<open>depth\<close>.  Reading
  \<^verbatim>\<open>s[i + 1]\<close> past the end gives \<^verbatim>\<open>undefined\<close>, which is not a space.
\<close>

function getDepth_loop :: "string \<Rightarrow> nat \<Rightarrow> nat \<Rightarrow> nat \<times> nat" where
  "getDepth_loop s i depth =
     (if i < length s then
        (if s ! i = TAB then getDepth_loop s (i + 1) (depth + 1)
         else if s ! i = SP then
           (if i + 1 < length s \<and> s ! (i + 1) = SP then getDepth_loop s (i + 2) (depth + 1)
            else (depth, i))
         else (depth, i))
      else (depth, i))"
  by pat_completeness auto
termination
  by (relation "measure (\<lambda>(s, i, depth). length s - i)") auto

declare getDepth_loop.simps [simp del]

definition getDepth :: "string \<Rightarrow> nat \<times> string" where
  "getDepth s = (case getDepth_loop s 0 0 of (depth, i) \<Rightarrow> (depth, drop i s))"

section \<open>Colours: resolveColor\<close>

text \<open>
  \<^verbatim>\<open>COLOR_PRESETS\<close> is an object literal, so reading a property of it that is not its own
  reads the property of \<^verbatim>\<open>Object.prototype\<close> of that name.  A value read from the table is
  therefore one of its strings or a member of \<^verbatim>\<open>Object.prototype\<close>.
\<close>

datatype color_value = ColorString string | PrototypeMember string

definition COLOR_PRESETS :: "(string \<times> string) list" where
  "COLOR_PRESETS =
     [(''red'', ''#ef4444''), (''blue'', ''#3b82f6''), (''green'', ''#22c55e''),
      (''orange'', ''#f59e0b''), (''purple'', ''#a78bfa''), (''teal'', ''#14b8a6''),
      (''pink'', ''#ec4899''), (''gray'', ''#6b7280''), (''slate'', ''#64748b''),
      (''amber'', ''#f59e0b''), (''lime'', ''#84cc16'')]"

text \<open>The property names of \<^verbatim>\<open>Object.prototype\<close> (ECMAScript, with Annex B).\<close>

definition Object_prototype_names :: "string list" where
  "Object_prototype_names =
     [''constructor'', ''__proto__'', ''hasOwnProperty'', ''isPrototypeOf'',
      ''propertyIsEnumerable'', ''toLocaleString'', ''toString'', ''valueOf'',
      ''__defineGetter__'', ''__defineSetter__'', ''__lookupGetter__'', ''__lookupSetter__'']"

definition COLOR_PRESETS_get :: "string \<Rightarrow> color_value option" where
  "COLOR_PRESETS_get k =
     (case map_of COLOR_PRESETS k of
        Some v \<Rightarrow> Some (ColorString v)
      | None \<Rightarrow> if k \<in> set Object_prototype_names then Some (PrototypeMember k) else None)"

text \<open>The test \<^verbatim>\<open>/^#([0-9a-fA-F]{3}|[0-9a-fA-F]{6}|[0-9a-fA-F]{8})$/\<close>.\<close>

definition isHexColor :: "string \<Rightarrow> bool" where
  "isHexColor s =
     (case s of
        [] \<Rightarrow> False
      | c # ds \<Rightarrow> c = CHR ''#'' \<and> list_all isHexDigit ds \<and> length ds \<in> set [3, 6, 8])"

definition resolveColor :: "string option \<Rightarrow> color_value option" where
  "resolveColor str =
     (case str of
        None \<Rightarrow> None
      | Some str' \<Rightarrow>
          if str' = [] then None
          else (let s = trim str'
                in if isHexColor s then Some (ColorString s)
                   else COLOR_PRESETS_get (toLowerCase s)))"

section \<open>Directives\<close>

text \<open>
  The directive patterns are \<^verbatim>\<open>/\\\\?KEYWORD\{([^}]+)\}/\<close>: a backslash, an optional second
  backslash, the keyword, an opening brace, one or more code units other than the closing
  brace (group 1), a closing brace.  Keywords: \<^verbatim>\<open>color\<close>, \<^verbatim>\<open>pos\<close>, \<^verbatim>\<open>jp\<close>, \<^verbatim>\<open>tags\<close> with
  the flag \<^verbatim>\<open>i\<close>; \<^verbatim>\<open>label\<close> without a flag; \<^verbatim>\<open>ref\<close> with the flag \<^verbatim>\<open>g\<close>.

  \<open>match_keyword ci kw s\<close> matches the keyword at the start of \<open>s\<close> and returns what
  follows it; \<open>ci\<close> is the flag \<^verbatim>\<open>i\<close>.
\<close>

fun match_keyword :: "bool \<Rightarrow> string \<Rightarrow> string \<Rightarrow> string option" where
  "match_keyword ci [] s = Some s"
| "match_keyword ci (k # ks) [] = None"
| "match_keyword ci (k # ks) (c # cs) =
     (if (if ci then canonicalize c = canonicalize k else c = k)
      then match_keyword ci ks cs else None)"

text \<open>
  The keyword, the brace, the payload and the closing brace.  The greedy \<^verbatim>\<open>[^}]+\<close> takes
  the whole run of code units up to the first closing brace or the end; giving some of
  them back never helps, as the closing brace of the pattern cannot match one of them.
  The result is group 1 and the text after the match.
\<close>

definition match_tail :: "bool \<Rightarrow> string \<Rightarrow> string \<Rightarrow> (string \<times> string) option" where
  "match_tail ci kw s =
     (case match_keyword ci kw s of
        None \<Rightarrow> None
      | Some s1 \<Rightarrow>
          (case s1 of
             [] \<Rightarrow> None
           | b # s2 \<Rightarrow>
               if b \<noteq> LBRACE then None
               else (let m1 = takeWhile (\<lambda>c. c \<noteq> RBRACE) s2;
                         s3 = dropWhile (\<lambda>c. c \<noteq> RBRACE) s2
                     in if m1 = [] then None
                        else (case s3 of [] \<Rightarrow> None | e # rest \<Rightarrow> Some (m1, rest)))))"

text \<open>
  A match at the start of \<open>s\<close>: the optional backslash is tried first, and the match
  without it is tried when that fails.  The result is the matched text (group 0),
  group 1 and the text after the match.
\<close>

definition match_at :: "bool \<Rightarrow> string \<Rightarrow> string \<Rightarrow> (string \<times> string \<times> string) option" where
  "match_at ci kw s =
     (case s of
        [] \<Rightarrow> None
      | c # s1 \<Rightarrow>
          if c \<noteq> BS then None
          else (case (case s1 of
                        [] \<Rightarrow> None
                      | b # s2 \<Rightarrow> if b = BS then match_tail ci kw s2 else None) of
                  Some (m1, rest) \<Rightarrow> Some (take (length s - length rest) s, m1, rest)
                | None \<Rightarrow>
                    (case match_tail ci kw s1 of
                       Some (m1, rest) \<Rightarrow> Some (take (length s - length rest) s, m1, rest)
                     | None \<Rightarrow> None)))"

text \<open>
  The leftmost match in \<open>s\<close>, as \<^verbatim>\<open>match\<close> and \<^verbatim>\<open>exec\<close> find it: the text before the
  match, group 0, group 1 and the text after the match.
\<close>

fun find_directive :: "bool \<Rightarrow> string \<Rightarrow> string \<Rightarrow> (string \<times> string \<times> string \<times> string) option" where
  "find_directive ci kw s =
     (case match_at ci kw s of
        Some (m0, m1, rest) \<Rightarrow> Some ([], m0, m1, rest)
      | None \<Rightarrow>
          (case s of
             [] \<Rightarrow> None
           | c # cs \<Rightarrow>
               (case find_directive ci kw cs of
                  None \<Rightarrow> None
                | Some (pre, m0, m1, rest) \<Rightarrow> Some (c # pre, m0, m1, rest))))"

declare find_directive.simps [simp del]

text \<open>
  \<^verbatim>\<open>text.replace(m0, "")\<close> with a string \<open>m0\<close>: the first occurrence of \<open>m0\<close> in the text
  is removed.
\<close>

fun remove_first :: "string \<Rightarrow> string \<Rightarrow> string" where
  "remove_first m0 [] = []"
| "remove_first m0 (c # cs) =
     (if prefix m0 (c # cs) then drop (length m0) (c # cs) else c # remove_first m0 cs)"

text \<open>
  The step shared by the five single directives: \<^verbatim>\<open>text.match(re)\<close> and, on a match,
  \<^verbatim>\<open>text = text.replace(match[0], "").trim()\<close>.  The result is group 1 of the match, if
  any, and the new text.
\<close>

definition extract_directive :: "bool \<Rightarrow> string \<Rightarrow> string \<Rightarrow> string option \<times> string" where
  "extract_directive ci kw text =
     (case find_directive ci kw text of
        None \<Rightarrow> (None, text)
      | Some (pre, m0, m1, rest) \<Rightarrow> (Some m1, trim (remove_first m0 text)))"

lemma match_keyword_Some:
  "match_keyword ci kw s = Some s1 \<Longrightarrow> \<exists>k. s = k @ s1 \<and> length k = length kw"
proof (induction ci kw s rule: match_keyword.induct)
  case (1 ci s)
  then show ?case by simp
next
  case (2 ci k ks)
  then show ?case by simp
next
  case (3 ci k ks c cs)
  from "3.prems" have ok: "(if ci then canonicalize c = canonicalize k else c = k)"
    and m: "match_keyword ci ks cs = Some s1"
    by (simp_all split: if_splits)
  from "3.IH" [OF ok m] obtain k' where "cs = k' @ s1" "length k' = length ks" by blast
  then have "c # cs = (c # k') @ s1 \<and> length (c # k') = length (k # ks)" by simp
  then show ?case by blast
qed

lemma match_tail_Some:
  assumes "match_tail ci kw s = Some (m1, rest)"
  shows "\<exists>k. s = k @ LBRACE # m1 @ RBRACE # rest \<and> length k = length kw \<and>
             match_keyword ci kw s = Some (LBRACE # m1 @ RBRACE # rest) \<and>
             m1 \<noteq> [] \<and> RBRACE \<notin> set m1"
proof -
  from assms obtain s1 where s1: "match_keyword ci kw s = Some s1"
    by (auto simp: match_tail_def split: option.splits)
  with assms obtain s2 where s2: "s1 = LBRACE # s2"
    by (auto simp: match_tail_def split: list.splits if_splits)
  from assms s1 s2 have m1: "m1 = takeWhile (\<lambda>c. c \<noteq> RBRACE) s2" and ne: "m1 \<noteq> []"
    by (auto simp: match_tail_def Let_def split: list.splits if_splits)
  from assms s1 s2 obtain e where d: "dropWhile (\<lambda>c. c \<noteq> RBRACE) s2 = e # rest"
    by (auto simp: match_tail_def Let_def split: list.splits if_splits)
  have "e = RBRACE" using hd_dropWhile [of "\<lambda>c. c \<noteq> RBRACE" s2] d by auto
  with d m1 have "s2 = m1 @ RBRACE # rest"
    using takeWhile_dropWhile_id [of "\<lambda>c. c \<noteq> RBRACE" s2] by simp
  moreover have "RBRACE \<notin> set m1" using m1 by (auto dest: set_takeWhileD)
  moreover from match_keyword_Some [OF s1] obtain k where "s = k @ s1" "length k = length kw"
    by blast
  ultimately show ?thesis using s1 s2 ne by auto
qed

lemma match_at_cases:
  assumes "match_at ci kw s = Some (m0, m1, rest)"
  shows "\<exists>s1. s = BS # s1 \<and> m0 = take (length s - length rest) s \<and>
           ((\<exists>s2. s1 = BS # s2 \<and> match_tail ci kw s2 = Some (m1, rest)) \<or>
            match_tail ci kw s1 = Some (m1, rest))"
proof (cases s)
  case Nil
  with assms show ?thesis by (simp add: match_at_def)
next
  case (Cons c s1)
  with assms have c: "c = BS" by (simp add: match_at_def split: if_splits)
  define first where "first = (case s1 of [] \<Rightarrow> None | b # s2 \<Rightarrow> if b = BS then match_tail ci kw s2 else None)"
  have eq: "match_at ci kw s =
      (case first of
         Some (m1, rest) \<Rightarrow> Some (take (length s - length rest) s, m1, rest)
       | None \<Rightarrow> (case match_tail ci kw s1 of
             Some (m1, rest) \<Rightarrow> Some (take (length s - length rest) s, m1, rest)
           | None \<Rightarrow> None))"
    unfolding match_at_def first_def Cons c by simp
  show ?thesis
  proof (cases first)
    case None
    with eq assms obtain "match_tail ci kw s1 = Some (m1, rest)" "m0 = take (length s - length rest) s"
      by (cases "match_tail ci kw s1") auto
    with Cons c show ?thesis by simp
  next
    case (Some r)
    obtain a b where r: "r = (a, b)" by (cases r)
    with eq assms Some have ab: "a = m1" "b = rest" "m0 = take (length s - length rest) s"
      by simp_all
    from Some r obtain s2 where "s1 = BS # s2" "match_tail ci kw s2 = Some (a, b)"
      unfolding first_def by (cases s1) (simp_all split: if_splits)
    with ab Cons c show ?thesis by simp
  qed
qed

lemma match_at_Some:
  assumes "match_at ci kw s = Some (m0, m1, rest)"
  shows "s = m0 @ rest \<and> m0 \<noteq> [] \<and> m1 \<noteq> [] \<and> RBRACE \<notin> set m1"
proof -
  from match_at_cases [OF assms] obtain s1 where s: "s = BS # s1"
    and m0: "m0 = take (length s - length rest) s"
    and alt: "(\<exists>s2. s1 = BS # s2 \<and> match_tail ci kw s2 = Some (m1, rest)) \<or>
              match_tail ci kw s1 = Some (m1, rest)"
    by blast
  from alt obtain t where t: "match_tail ci kw t = Some (m1, rest)" and st: "\<exists>q. s = q @ t \<and> q \<noteq> []"
  proof
    assume "\<exists>s2. s1 = BS # s2 \<and> match_tail ci kw s2 = Some (m1, rest)"
    then obtain s2 where "s1 = BS # s2" "match_tail ci kw s2 = Some (m1, rest)" by blast
    moreover from this s have "s = [BS, BS] @ s2" by simp
    ultimately show ?thesis using that by blast
  next
    assume "match_tail ci kw s1 = Some (m1, rest)"
    moreover from s have "s = [BS] @ s1" by simp
    ultimately show ?thesis using that by blast
  qed
  from match_tail_Some [OF t] obtain k where k: "t = k @ LBRACE # m1 @ RBRACE # rest"
    and m1: "m1 \<noteq> []" "RBRACE \<notin> set m1" by blast
  from st obtain q where q: "s = q @ t" "q \<noteq> []" by blast
  from q k have "s = (q @ k @ LBRACE # m1 @ [RBRACE]) @ rest" by simp
  then have "take (length s - length rest) s = q @ k @ LBRACE # m1 @ [RBRACE]" by simp
  with m0 q k m1 show ?thesis by simp
qed

lemma find_directive_Some:
  "find_directive ci kw s = Some (pre, m0, m1, rest) \<Longrightarrow>
     s = pre @ m0 @ rest \<and> m0 \<noteq> [] \<and> m1 \<noteq> [] \<and> RBRACE \<notin> set m1 \<and>
     match_at ci kw (m0 @ rest) = Some (m0, m1, rest)"
proof (induction s arbitrary: pre)
  case Nil
  then show ?case
    by (simp add: find_directive.simps [of _ _ "[]"] match_at_def)
next
  case (Cons c cs)
  show ?case
  proof (cases "match_at ci kw (c # cs)")
    case None
    with Cons.prems obtain pre' where f: "find_directive ci kw cs = Some (pre', m0, m1, rest)"
      and p: "pre = c # pre'"
      by (auto simp: find_directive.simps [of _ _ "c # cs"] split: option.splits)
    from Cons.IH [OF f] p show ?thesis by simp
  next
    case (Some r)
    with Cons.prems have r: "r = (m0, m1, rest)" and p: "pre = []"
      by (auto simp: find_directive.simps [of _ _ "c # cs"] split: option.splits prod.splits)
    from match_at_Some [OF Some [unfolded r]] Some r p show ?thesis by simp
  qed
qed

lemma find_directive_length:
  "find_directive ci kw s = Some (pre, m0, m1, rest) \<Longrightarrow> length rest < length s"
  by (drule find_directive_Some) auto

text \<open>
  The loop \<^verbatim>\<open>while ((m = refRegex.exec(text))) ...\<close> with the flag \<^verbatim>\<open>g\<close>: each search
  starts where the last match ended.  The result lists, for each match, the text between
  the last match and this one, group 0 and group 1.
\<close>

function ref_matches :: "string \<Rightarrow> (string \<times> string \<times> string) list" where
  "ref_matches s =
     (case find_directive False ''ref'' s of
        None \<Rightarrow> []
      | Some (pre, m0, m1, rest) \<Rightarrow> (pre, m0, m1) # ref_matches rest)"
  by pat_completeness auto
termination
  by (relation "measure length") (auto dest: find_directive_length)

declare ref_matches.simps [simp del]

text \<open>\<^verbatim>\<open>text.replace(refRegex, "")\<close>: every match of the same left-to-right search is removed.\<close>

function remove_refs :: "string \<Rightarrow> string" where
  "remove_refs s =
     (case find_directive False ''ref'' s of
        None \<Rightarrow> s
      | Some (pre, m0, m1, rest) \<Rightarrow> pre @ remove_refs rest)"
  by pat_completeness auto
termination
  by (relation "measure length") (auto dest: find_directive_length)

declare remove_refs.simps [simp del]

text \<open>
  \<^verbatim>\<open>.replace(/\s{2,}/g, " ")\<close>: every maximal run of two or more white-space code units
  becomes one space.
\<close>

function collapse :: "string \<Rightarrow> string" where
  "collapse [] = []"
| "collapse (c # cs) =
     (if isWhite c \<and> takeWhile isWhite cs \<noteq> [] then SP # collapse (dropWhile isWhite cs)
      else c # collapse cs)"
  by pat_completeness auto
termination
  by (relation "measure length") (auto simp: length_dropWhile_le less_Suc_eq_le)

text \<open>
  \<^verbatim>\<open>.split(/[\,\s]+/)\<close>: the pieces between the maximal runs of commas and white space;
  a run at the start or at the end leaves an empty piece there.
\<close>

definition isTagSeparator :: "char \<Rightarrow> bool" where
  "isTagSeparator c \<longleftrightarrow> c = CHR '','' \<or> isWhite c"

function split_tags :: "string \<Rightarrow> string list" where
  "split_tags [] = [[]]"
| "split_tags (c # cs) =
     (if isTagSeparator c then [] # split_tags (dropWhile isTagSeparator cs)
      else (case split_tags cs of [] \<Rightarrow> [[c]] | t # ts \<Rightarrow> (c # t) # ts))"
  by pat_completeness auto
termination
  by (relation "measure length") (auto simp: length_dropWhile_le less_Suc_eq_le)

text \<open>The decimal numeral of a line index, as the template \<^verbatim>\<open>`n_${idx}`\<close> prints it.\<close>

function show_nat :: "nat \<Rightarrow> string" where
  "show_nat n = (if n < 10 then [char_of (48 + n)] else show_nat (n div 10) @ [char_of (48 + n mod 10)])"
  by pat_completeness auto
termination
  by (relation "measure id") auto

declare show_nat.simps [simp del]

section \<open>The data model\<close>

text \<open>
  The interface \<^verbatim>\<open>RawNode\<close>.  The fields \<^verbatim>\<open>id\<close> and \<^verbatim>\<open>text\<close> are \<open>id'\<close> and \<open>text'\<close> here.
  An optional field that is absent or \<^verbatim>\<open>undefined\<close> is \<open>None\<close>.  Local variables that
  share a name with a field carry a prime as well.  The root has \<^verbatim>\<open>depth\<close> and
  \<^verbatim>\<open>line\<close> \<open>-1\<close>, so both are integers.
\<close>

record RawNode_fields =
  id' :: string
  depth :: int
  line :: int
  text' :: string
  jp :: "string option"
  label :: "string option"
  color :: "color_value option"
  effectiveColor :: "color_value option"
  refs :: "string list"
  pos :: "string option"
  tags :: "string list"

datatype RawNode = RawNode (info: RawNode_fields) (children: "RawNode list")

section \<open>One line: the node it produces\<close>

text \<open>
  The body of the \<^verbatim>\<open>forEach\<close> callback of \<^verbatim>\<open>parseText\<close> from \<^verbatim>\<open>getDepth(raw)\<close> to the object
  literal \<^verbatim>\<open>node\<close>, for a line \<open>raw\<close> with index \<open>idx\<close> that is not blank.
\<close>

definition make_node :: "nat \<Rightarrow> string \<Rightarrow> RawNode" where
  "make_node idx raw =
     (case getDepth raw of
        (depth', rest) \<Rightarrow>
          (let text = trim rest;
               (colorMatch, text) = extract_directive True ''color'' text;
               colorRaw = map_option trim colorMatch;
               (labelMatch, text) = extract_directive False ''label'' text;
               label' = map_option trim labelMatch;
               (posMatch, text) = extract_directive True ''pos'' text;
               pos' = map_option (\<lambda>m1. toLowerCase (trim m1)) posMatch;
               (jpMatch, text) = extract_directive True ''jp'' text;
               jp' = map_option trim jpMatch;
               (tagsMatch, text) = extract_directive True ''tags'' text;
               tags' = (case tagsMatch of
                          None \<Rightarrow> []
                        | Some m1 \<Rightarrow>
                            filter (\<lambda>t. t \<noteq> []) (map (\<lambda>t. toLowerCase (trim t)) (split_tags m1)));
               tags' = (case pos' of
                          None \<Rightarrow> tags'
                        | Some p \<Rightarrow> if p \<noteq> [] then tags' @ [p] else tags');
               refs' = map (\<lambda>(pre, m0, m1). trim m1) (ref_matches text);
               text = trim (collapse (remove_refs text))
           in RawNode
                \<lparr>id' = ''n_'' @ show_nat idx,
                 depth = int depth',
                 line = int idx,
                 text' = (if text \<noteq> [] then text else ''(untitled)''),
                 jp = jp',
                 label = label',
                 color = resolveColor colorRaw,
                 effectiveColor = None,
                 refs = refs',
                 pos = pos',
                 tags = tags'\<rparr> []))"

section \<open>The tree and the stack of open nodes\<close>

text \<open>
  The objects of a parse form a tree below \<^verbatim>\<open>root\<close>: a node object is created once, pushed
  once to the \<^verbatim>\<open>children\<close> of one node, and never removed.  A reference to a node object
  is modelled as the position of the object in that tree: the list of child indices
  leading from the root to it.  The array \<^verbatim>\<open>stack\<close> is a list of such references with the
  top of the stack at the head.
\<close>

fun node_at :: "RawNode \<Rightarrow> nat list \<Rightarrow> RawNode option" where
  "node_at n [] = Some n"
| "node_at n (i # p) = (if i < length (children n) then node_at (children n ! i) p else None)"

text \<open>\<^verbatim>\<open>ref.children.push(new)\<close> for the reference \<open>p\<close>.\<close>

fun push_child :: "nat list \<Rightarrow> RawNode \<Rightarrow> RawNode \<Rightarrow> RawNode" where
  "push_child [] new (RawNode f cs) = RawNode f (cs @ [new])"
| "push_child (i # p) new (RawNode f cs) =
     (if i < length cs then RawNode f (cs[i := push_child p new (cs ! i)]) else RawNode f cs)"

text \<open>
  \<^verbatim>\<open>TypeError\<close> is what reading \<^verbatim>\<open>.children\<close> of \<^verbatim>\<open>stack[-1]\<close>, which is \<^verbatim>\<open>undefined\<close>, throws.
  \<^verbatim>\<open>RangeError\<close> is what a call throws for which the call stack of the engine has no room.
  A position that leads to no node stands for no object of the program; the model gives
  it the value \<open>DanglingReference\<close>.
\<close>

datatype error = TypeError | RangeError | DanglingReference

record parse_state =
  root :: RawNode
  stack :: "nat list list"
  labelToId :: "string \<rightharpoonup> string"

text \<open>\<^verbatim>\<open>while (stack.length && stack[stack.length - 1].depth >= depth) stack.pop()\<close>.\<close>

fun pop_stack :: "RawNode \<Rightarrow> int \<Rightarrow> nat list list \<Rightarrow> error + nat list list" where
  "pop_stack r d [] = Inr []"
| "pop_stack r d (p # ps) =
     (case node_at r p of
        None \<Rightarrow> Inl DanglingReference
      | Some n \<Rightarrow> if depth (info n) \<ge> d then pop_stack r d ps else Inr (p # ps))"

text \<open>The callback of \<^verbatim>\<open>lines.forEach\<close> for the line \<open>raw\<close> with index \<open>idx\<close>.\<close>

definition parse_line :: "nat \<Rightarrow> string \<Rightarrow> parse_state \<Rightarrow> error + parse_state" where
  "parse_line idx raw st =
     (if trim raw = [] then Inr st
      else (let node = make_node idx raw
            in case pop_stack (root st) (depth (info node)) (stack st) of
                 Inl e \<Rightarrow> Inl e
               | Inr [] \<Rightarrow> Inl TypeError
               | Inr (p # ps) \<Rightarrow>
                   (case node_at (root st) p of
                      None \<Rightarrow> Inl DanglingReference
                    | Some parent \<Rightarrow>
                        Inr \<lparr>root = push_child p node (root st),
                             stack = (p @ [length (children parent)]) # p # ps,
                             labelToId =
                               (case label (info node) of
                                  None \<Rightarrow> labelToId st
                                | Some l \<Rightarrow>
                                    if l \<noteq> [] then (labelToId st)(l \<mapsto> id' (info node))
                                    else labelToId st)\<rparr>)))"

text \<open>\<^verbatim>\<open>lines.forEach\<close>: an exception thrown by the callback ends the loop.\<close>

fun parse_lines :: "(nat \<times> string) list \<Rightarrow> parse_state \<Rightarrow> error + parse_state" where
  "parse_lines [] st = Inr st"
| "parse_lines ((idx, raw) # ls) st =
     (case parse_line idx raw st of
        Inl e \<Rightarrow> Inl e
      | Inr st' \<Rightarrow> parse_lines ls st')"

text \<open>\<^verbatim>\<open>input.replace(/\r\n?/g, "\n")\<close> and \<^verbatim>\<open>.split("\n")\<close>.\<close>

fun normalize_newlines :: "string \<Rightarrow> string" where
  "normalize_newlines [] = []"
| "normalize_newlines [c] = (if c = CR then [LF] else [c])"
| "normalize_newlines (c # d # cs) =
     (if c = CR then (if d = LF then LF # normalize_newlines cs else LF # normalize_newlines (d # cs))
      else c # normalize_newlines (d # cs))"

fun split_lines :: "string \<Rightarrow> string list" where
  "split_lines [] = [[]]"
| "split_lines (c # cs) =
     (if c = LF then [] # split_lines cs
      else (case split_lines cs of [] \<Rightarrow> [[c]] | l # ls \<Rightarrow> (c # l) # ls))"

text \<open>
  The inner function \<^verbatim>\<open>applyColor\<close>; \<^verbatim>\<open>??\<close> takes the right operand when the left is \<^verbatim>\<open>undefined\<close>.
  This is the tree that the calls leave behind when all of them return; \<open>parseText\<close> below
  is the result of the function in that case.  The calls themselves, of which an engine
  takes only so many inside one another, are \<open>applyColor_call\<close> and \<open>parseText_run\<close> in the
  section on the limits of the engine.
\<close>

fun applyColor :: "RawNode \<Rightarrow> color_value option \<Rightarrow> RawNode" where
  "applyColor (RawNode f cs) inherited =
     (let cur = (case color f of None \<Rightarrow> inherited | Some c \<Rightarrow> Some c)
      in RawNode (f\<lparr>effectiveColor := cur\<rparr>) (map (\<lambda>c. applyColor c cur) cs))"

definition root_node :: RawNode where
  "root_node =
     RawNode
       \<lparr>id' = ''root'', depth = - 1, line = - 1, text' = ''root'', jp = None, label = None,
        color = None, effectiveColor = None, refs = [], pos = None, tags = []\<rparr> []"

definition initial_state :: parse_state where
  "initial_state = \<lparr>root = root_node, stack = [[]], labelToId = Map.empty\<rparr>"

definition parseText :: "string \<Rightarrow> error + RawNode \<times> (string \<rightharpoonup> string)" where
  "parseText input =
     (let lines = split_lines (normalize_newlines input)
      in case parse_lines (enumerate 0 lines) initial_state of
           Inl e \<Rightarrow> Inl e
         | Inr st \<Rightarrow> Inr (applyColor (root st) None, labelToId st))"

section \<open>Indentation depth (C2)\<close>

text \<open>
  An indentation unit is one TAB or two spaces.  The structural scan \<open>indent\<close> consumes
  units from the front of a line; it is shown to compute what the index loop of
  \<^verbatim>\<open>getDepth\<close> computes.
\<close>

definition indent_unit :: "string \<Rightarrow> bool" where
  "indent_unit u \<longleftrightarrow> u = [TAB] \<or> u = [SP, SP]"

definition starts_with_indent_unit :: "string \<Rightarrow> bool" where
  "starts_with_indent_unit s \<longleftrightarrow> prefix [TAB] s \<or> prefix [SP, SP] s"

fun indent :: "string \<Rightarrow> nat \<times> string" where
  "indent [] = (0, [])"
| "indent [c] = (if c = TAB then (1, []) else (0, [c]))"
| "indent (c # c' # cs) =
     (if c = TAB then (Suc (fst (indent (c' # cs))), snd (indent (c' # cs)))
      else if c = SP \<and> c' = SP then (Suc (fst (indent cs)), snd (indent cs))
      else (0, c # c' # cs))"

lemma indent_suffix: "\<exists>p. t = p @ snd (indent t)"
proof (induction t rule: indent.induct)
  case 1
  then show ?case by simp
next
  case (2 c)
  then show ?case by simp
next
  case (3 c c' cs)
  show ?case
  proof (cases "c = TAB")
    case True
    with 3 obtain p where "c' # cs = p @ snd (indent (c' # cs))" by blast
    then have "c # c' # cs = (c # p) @ snd (indent (c' # cs))" by simp
    with True show ?thesis by (metis indent.simps(3) snd_conv)
  next
    case False
    show ?thesis
    proof (cases "c = SP \<and> c' = SP")
      case True
      with 3 False obtain p where "cs = p @ snd (indent cs)" by blast
      then have "c # c' # cs = (c # c' # p) @ snd (indent cs)" by simp
      with True False show ?thesis by (metis indent.simps(3) snd_conv)
    next
      case F2: False
      with False have "snd (indent (c # c' # cs)) = c # c' # cs" by auto
      then show ?thesis by (metis append_Nil)
    qed
  qed
qed

lemma indent_length: "length (snd (indent t)) \<le> length t"
  using indent_suffix [of t] by (metis length_append le_add2)

lemma getDepth_loop_indent:
  "i \<le> length s \<Longrightarrow>
   getDepth_loop s i d =
     (d + fst (indent (drop i s)), length s - length (snd (indent (drop i s))))"
proof (induction s i d rule: getDepth_loop.induct)
  case (1 s i d)
  show ?case
  proof (cases "i < length s")
    case False
    then have "getDepth_loop s i d = (d, i)" by (subst getDepth_loop.simps) simp
    moreover from False "1.prems" have "drop i s = []" "i = length s" by simp_all
    ultimately show ?thesis by simp
  next
    case lt: True
    then have dr: "drop i s = s ! i # drop (Suc i) s" by (simp add: Cons_nth_drop_Suc)
    have ts: "TAB \<noteq> SP" by (simp add: TAB_def SP_def)
    have l1: "length (snd (indent (drop (Suc i) s))) \<le> length s - Suc i"
      using indent_length [of "drop (Suc i) s"] by simp
    show ?thesis
    proof (cases "s ! i = TAB")
      case True
      with lt have "getDepth_loop s i d = getDepth_loop s (i + 1) (d + 1)"
        by (subst getDepth_loop.simps) simp
      also have "\<dots> = (d + 1 + fst (indent (drop (i + 1) s)),
                       length s - length (snd (indent (drop (i + 1) s))))"
        using "1.IH"(1) [OF lt True] lt by simp
      also have "\<dots> = (d + fst (indent (drop i s)), length s - length (snd (indent (drop i s))))"
      proof (cases "drop (Suc i) s")
        case Nil
        with dr True show ?thesis by simp
      next
        case (Cons a as)
        with dr True show ?thesis by simp
      qed
      finally show ?thesis .
    next
      case nt: False
      show ?thesis
      proof (cases "s ! i = SP \<and> i + 1 < length s \<and> s ! (i + 1) = SP")
        case True
        then have a: "s ! i = SP" and b: "i + 1 < length s \<and> s ! (i + 1) = SP" by simp_all
        from b have dr2: "drop (Suc i) s = SP # drop (Suc (Suc i)) s"
          using Cons_nth_drop_Suc [of "Suc i" s] by simp
        from lt nt a b have "getDepth_loop s i d = getDepth_loop s (i + 2) (d + 1)"
          by (subst getDepth_loop.simps) simp
        also have "\<dots> = (d + 1 + fst (indent (drop (i + 2) s)),
                         length s - length (snd (indent (drop (i + 2) s))))"
          using "1.IH"(2) [OF lt nt a b] b by simp
        also have "\<dots> = (d + fst (indent (drop i s)), length s - length (snd (indent (drop i s))))"
          using dr dr2 a ts by simp
        finally show ?thesis .
      next
        case False
        with lt nt have "getDepth_loop s i d = (d, i)"
          by (subst getDepth_loop.simps) auto
        moreover have "indent (drop i s) = (0, drop i s)"
        proof (cases "drop (Suc i) s")
          case Nil
          with dr nt show ?thesis by simp
        next
          case (Cons a as)
          then have "Suc i < length s" by (metis drop_eq_Nil2 list.distinct(1) not_le)
          with Cons have "a = s ! (i + 1)" using Cons_nth_drop_Suc [of "Suc i" s] by simp
          with False \<open>Suc i < length s\<close> have "\<not> (s ! i = SP \<and> a = SP)" by auto
          with dr nt Cons show ?thesis by simp
        qed
        moreover from lt have "length s - length (drop i s) = i" by simp
        ultimately show ?thesis by simp
      qed
    qed
  qed
qed

lemma getDepth_indent: "getDepth s = indent s"
proof -
  obtain p where p: "s = p @ snd (indent s)" using indent_suffix by blast
  then have "length s - length (snd (indent s)) = length p"
    by (metis add_diff_cancel_right' length_append)
  with p have "drop (length s - length (snd (indent s))) s = snd (indent s)"
    by (metis append_eq_conv_conj)
  then show ?thesis
    by (simp add: getDepth_def getDepth_loop_indent)
qed


lemma TAB_neq_SP: "TAB \<noteq> SP"
  by (simp add: TAB_def SP_def)

lemma indent_TAB: "indent (TAB # t) = (Suc (fst (indent t)), snd (indent t))"
  by (cases t) simp_all

lemma indent_SP_SP: "indent (SP # SP # t) = (Suc (fst (indent t)), snd (indent t))"
  using TAB_neq_SP by simp

lemma indent_stop: "\<not> starts_with_indent_unit r \<Longrightarrow> indent r = (0, r)"
proof (cases r rule: indent.cases)
  case 1
  then show ?thesis by simp
next
  case (2 c)
  assume "\<not> starts_with_indent_unit r"
  with 2 show ?thesis by (simp add: starts_with_indent_unit_def)
next
  case (3 c c' cs)
  assume "\<not> starts_with_indent_unit r"
  with 3 show ?thesis by (auto simp: starts_with_indent_unit_def)
qed

lemma indent_units:
  "list_all indent_unit us \<Longrightarrow> \<not> starts_with_indent_unit r \<Longrightarrow>
   indent (concat us @ r) = (length us, r)"
proof (induction us)
  case Nil
  then show ?case by (simp add: indent_stop)
next
  case (Cons u us)
  then have IH: "indent (concat us @ r) = (length us, r)" by simp
  from Cons.prems have "u = [TAB] \<or> u = [SP, SP]" by (simp add: indent_unit_def)
  then show ?case
  proof
    assume "u = [TAB]"
    then show ?thesis using IH by (simp add: indent_TAB)
  next
    assume "u = [SP, SP]"
    then show ?thesis using IH TAB_neq_SP by (simp add: indent_SP_SP)
  qed
qed

lemma indent_decompose:
  "\<exists>us. list_all indent_unit us \<and> t = concat us @ snd (indent t) \<and>
        fst (indent t) = length us \<and> \<not> starts_with_indent_unit (snd (indent t))"
proof (induction t rule: indent.induct)
  case 1
  have "list_all indent_unit [] \<and> [] = concat [] @ snd (indent []) \<and>
        fst (indent []) = length ([] :: string list) \<and> \<not> starts_with_indent_unit (snd (indent []))"
    by (simp add: starts_with_indent_unit_def)
  then show ?case by blast
next
  case (2 c)
  show ?case
  proof (cases "c = TAB")
    case True
    then have "list_all indent_unit [[TAB]] \<and> [c] = concat [[TAB]] @ snd (indent [c]) \<and>
        fst (indent [c]) = length [[TAB]] \<and> \<not> starts_with_indent_unit (snd (indent [c]))"
      by (simp add: starts_with_indent_unit_def indent_unit_def)
    then show ?thesis by blast
  next
    case False
    then have "list_all indent_unit [] \<and> [c] = concat [] @ snd (indent [c]) \<and>
        fst (indent [c]) = length ([] :: string list) \<and> \<not> starts_with_indent_unit (snd (indent [c]))"
      by (simp add: starts_with_indent_unit_def)
    then show ?thesis by blast
  qed
next
  case (3 c c' cs)
  show ?case
  proof (cases "c = TAB")
    case True
    with 3 obtain us where us: "list_all indent_unit us"
      "c' # cs = concat us @ snd (indent (c' # cs))"
      "fst (indent (c' # cs)) = length us"
      "\<not> starts_with_indent_unit (snd (indent (c' # cs)))" by blast
    from us(2) have "c # c' # cs = concat ([TAB] # us) @ snd (indent (c' # cs))"
      using True by simp
    with us True have "list_all indent_unit ([TAB] # us) \<and>
        c # c' # cs = concat ([TAB] # us) @ snd (indent (c # c' # cs)) \<and>
        fst (indent (c # c' # cs)) = length ([TAB] # us) \<and>
        \<not> starts_with_indent_unit (snd (indent (c # c' # cs)))"
      by (simp add: indent_unit_def)
    then show ?thesis by blast
  next
    case nt: False
    show ?thesis
    proof (cases "c = SP \<and> c' = SP")
      case True
      with 3 nt obtain us where us: "list_all indent_unit us"
        "cs = concat us @ snd (indent cs)"
        "fst (indent cs) = length us"
        "\<not> starts_with_indent_unit (snd (indent cs))" by blast
      from us(2) have "c # c' # cs = concat ([SP, SP] # us) @ snd (indent cs)"
        using True by simp
      with us True nt have "list_all indent_unit ([SP, SP] # us) \<and>
          c # c' # cs = concat ([SP, SP] # us) @ snd (indent (c # c' # cs)) \<and>
          fst (indent (c # c' # cs)) = length ([SP, SP] # us) \<and>
          \<not> starts_with_indent_unit (snd (indent (c # c' # cs)))"
        by (simp add: indent_unit_def)
      then show ?thesis by blast
    next
      case False
      with nt have "list_all indent_unit [] \<and>
          c # c' # cs = concat [] @ snd (indent (c # c' # cs)) \<and>
          fst (indent (c # c' # cs)) = length ([] :: string list) \<and>
          \<not> starts_with_indent_unit (snd (indent (c # c' # cs)))"
        by (auto simp: starts_with_indent_unit_def)
      then show ?thesis by blast
    qed
  qed
qed

text \<open>
  Claim C2.  For every line \<open>s\<close>, \<^verbatim>\<open>getDepth\<close> returns the depth \<open>d\<close> and the remainder \<open>rest\<close>
  exactly when \<open>s\<close> is a run of \<open>d\<close> indentation units (each one TAB or one pair of spaces)
  followed by \<open>rest\<close>, and \<open>rest\<close> starts with no further unit: neither with a TAB nor
  with two spaces, so a single unpaired space stays in \<open>rest\<close>.  The lines \<^verbatim>\<open>A\<close>, \<^verbatim>\<open>B\<close> after
  two spaces and \<^verbatim>\<open>C\<close> after four spaces have the depths 0, 1 and 2.
\<close>

theorem getDepth_levels:
  "(getDepth s = (d, rest) \<longleftrightarrow>
      (\<exists>us. list_all indent_unit us \<and> s = concat us @ rest \<and> d = length us \<and>
            \<not> starts_with_indent_unit rest)) \<and>
   fst (getDepth ''A'') = 0 \<and> fst (getDepth ''  B'') = 1 \<and> fst (getDepth ''    C'') = 2"
proof -
  have "getDepth s = (d, rest) \<longleftrightarrow>
      (\<exists>us. list_all indent_unit us \<and> s = concat us @ rest \<and> d = length us \<and>
            \<not> starts_with_indent_unit rest)" (is "?L \<longleftrightarrow> ?R")
  proof
    assume ?L
    with indent_decompose [of s] show ?R by (simp add: getDepth_indent) 
  next
    assume ?R
    then show ?L using indent_units by (auto simp: getDepth_indent)
  qed
  moreover have "fst (getDepth ''A'') = 0" "fst (getDepth ''  B'') = 1" "fst (getDepth ''    C'') = 2"
    by (simp_all add: getDepth_indent TAB_def SP_def)
  ultimately show ?thesis by simp
qed

theorem getDepth_levels_witness:
  "getDepth (TAB # ''    x y'') = (3, ''x y'') \<and>
   list_all indent_unit [[TAB], [SP, SP], [SP, SP]] \<and>
   \<not> starts_with_indent_unit ''x y''"
  using getDepth_levels [of "TAB # ''    x y''" 3 "''x y''"]
  by (simp add: getDepth_indent TAB_def SP_def starts_with_indent_unit_def indent_unit_def)

section \<open>What a directive is\<close>

text \<open>
  The shape of a directive, stated on the text rather than by a matcher: a backslash or
  two, a spelling of the keyword (any letter case under the flag \<^verbatim>\<open>i\<close>, the keyword itself
  otherwise), and a non-empty payload without closing brace between braces.  The matcher
  finds exactly these, and \<open>find_directive\<close> the first of them.
\<close>

definition keyword_spelled :: "bool \<Rightarrow> string \<Rightarrow> string \<Rightarrow> bool" where
  "keyword_spelled ci kw k \<longleftrightarrow> (if ci then map canonicalize k = map canonicalize kw else k = kw)"

definition is_directive :: "bool \<Rightarrow> string \<Rightarrow> string \<Rightarrow> string \<Rightarrow> bool" where
  "is_directive ci kw m0 m1 \<longleftrightarrow>
     m1 \<noteq> [] \<and> RBRACE \<notin> set m1 \<and>
     (\<exists>k. keyword_spelled ci kw k \<and>
          (m0 = BS # k @ LBRACE # m1 @ [RBRACE] \<or> m0 = BS # BS # k @ LBRACE # m1 @ [RBRACE]))"

definition directive_at :: "bool \<Rightarrow> string \<Rightarrow> string \<Rightarrow> bool" where
  "directive_at ci kw s \<longleftrightarrow> (\<exists>m0 m1. is_directive ci kw m0 m1 \<and> prefix m0 s)"

definition plain_keyword :: "string \<Rightarrow> bool" where
  "plain_keyword kw \<longleftrightarrow> BS \<notin> set kw \<and> BS \<notin> set (map canonicalize kw)"

lemma keyword_spelled_length: "keyword_spelled ci kw k \<Longrightarrow> length k = length kw"
  by (auto simp: keyword_spelled_def dest: map_eq_imp_length_eq split: if_splits)

lemma match_keyword_spelled:
  "match_keyword ci kw s = Some t \<longleftrightarrow> (\<exists>k. keyword_spelled ci kw k \<and> s = k @ t)"
proof (induction ci kw s rule: match_keyword.induct)
  case (1 ci s)
  then show ?case by (auto simp: keyword_spelled_def)
next
  case (2 ci k ks)
  then show ?case by (auto simp: keyword_spelled_def)
next
  case (3 ci k ks c cs)
  show ?case
  proof (cases "if ci then canonicalize c = canonicalize k else c = k")
    case False
    then have "match_keyword ci (k # ks) (c # cs) = None" by simp
    moreover have "\<not> (\<exists>k'. keyword_spelled ci (k # ks) k' \<and> c # cs = k' @ t)"
    proof
      assume "\<exists>k'. keyword_spelled ci (k # ks) k' \<and> c # cs = k' @ t"
      then obtain k' where k': "keyword_spelled ci (k # ks) k'" "c # cs = k' @ t" by blast
      from keyword_spelled_length [OF k'(1)] obtain a as where "k' = a # as" by (cases k') auto
      with k' False show False by (auto simp: keyword_spelled_def split: if_splits)
    qed
    ultimately show ?thesis by simp
  next
    case True
    then have "match_keyword ci (k # ks) (c # cs) = match_keyword ci ks cs" by simp
    also have "\<dots> = Some t \<longleftrightarrow> (\<exists>k'. keyword_spelled ci ks k' \<and> cs = k' @ t)"
      using "3.IH" [OF True] .
    also have "\<dots> \<longleftrightarrow> (\<exists>k'. keyword_spelled ci (k # ks) k' \<and> c # cs = k' @ t)"
    proof
      assume "\<exists>k'. keyword_spelled ci ks k' \<and> cs = k' @ t"
      then obtain k' where "keyword_spelled ci ks k'" "cs = k' @ t" by blast
      with True have "keyword_spelled ci (k # ks) (c # k') \<and> c # cs = (c # k') @ t"
        by (auto simp: keyword_spelled_def split: if_splits)
      then show "\<exists>k'. keyword_spelled ci (k # ks) k' \<and> c # cs = k' @ t" by blast
    next
      assume "\<exists>k'. keyword_spelled ci (k # ks) k' \<and> c # cs = k' @ t"
      then obtain k' where k': "keyword_spelled ci (k # ks) k'" "c # cs = k' @ t" by blast
      from keyword_spelled_length [OF k'(1)] obtain a as where "k' = a # as" by (cases k') auto
      with k' have "keyword_spelled ci ks as \<and> cs = as @ t"
        by (auto simp: keyword_spelled_def split: if_splits)
      then show "\<exists>k'. keyword_spelled ci ks k' \<and> cs = k' @ t" by blast
    qed
    finally show ?thesis .
  qed
qed

lemma payload_split:
  assumes "RBRACE \<notin> set m1"
  shows "takeWhile (\<lambda>c. c \<noteq> RBRACE) (m1 @ RBRACE # rest) = m1"
    and "dropWhile (\<lambda>c. c \<noteq> RBRACE) (m1 @ RBRACE # rest) = RBRACE # rest"
  using assms by (induction m1) auto

lemma match_tail_iff:
  "match_tail ci kw s = Some (m1, rest) \<longleftrightarrow>
     m1 \<noteq> [] \<and> RBRACE \<notin> set m1 \<and>
     (\<exists>k. keyword_spelled ci kw k \<and> s = k @ LBRACE # m1 @ RBRACE # rest)"
proof
  assume "match_tail ci kw s = Some (m1, rest)"
  from match_tail_Some [OF this] have
    "match_keyword ci kw s = Some (LBRACE # m1 @ RBRACE # rest)" "m1 \<noteq> []" "RBRACE \<notin> set m1"
    by blast+
  then show "m1 \<noteq> [] \<and> RBRACE \<notin> set m1 \<and>
     (\<exists>k. keyword_spelled ci kw k \<and> s = k @ LBRACE # m1 @ RBRACE # rest)"
    by (simp add: match_keyword_spelled)
next
  assume a: "m1 \<noteq> [] \<and> RBRACE \<notin> set m1 \<and>
     (\<exists>k. keyword_spelled ci kw k \<and> s = k @ LBRACE # m1 @ RBRACE # rest)"
  then have "match_keyword ci kw s = Some (LBRACE # m1 @ RBRACE # rest)"
    by (simp add: match_keyword_spelled)
  with a show "match_tail ci kw s = Some (m1, rest)"
    by (simp add: match_tail_def payload_split)
qed

lemma canonicalize_BS: "canonicalize BS = BS"
  by (simp add: canonicalize_def BS_def)

lemma keyword_spelled_no_BS:
  assumes "keyword_spelled ci kw k" "plain_keyword kw"
  shows "BS \<notin> set k"
proof (cases ci)
  case False
  with assms show ?thesis by (simp add: keyword_spelled_def plain_keyword_def)
next
  case True
  with assms have eq: "map canonicalize k = map canonicalize kw" by (simp add: keyword_spelled_def)
  show ?thesis
  proof
    assume "BS \<in> set k"
    then have "canonicalize BS \<in> set (map canonicalize k)" by (metis image_eqI set_map)
    then have "BS \<in> set (map canonicalize kw)" unfolding eq canonicalize_BS .
    with assms(2) show False by (simp add: plain_keyword_def)
  qed
qed

lemma match_at_iff:
  assumes "plain_keyword kw"
  shows "match_at ci kw s = Some (m0, m1, rest) \<longleftrightarrow> s = m0 @ rest \<and> is_directive ci kw m0 m1"
proof
  assume m: "match_at ci kw s = Some (m0, m1, rest)"
  from match_at_Some [OF m] have s: "s = m0 @ rest" by simp
  from match_at_cases [OF m] obtain s1 where s1: "s = BS # s1"
    and alt: "(\<exists>s2. s1 = BS # s2 \<and> match_tail ci kw s2 = Some (m1, rest)) \<or>
              match_tail ci kw s1 = Some (m1, rest)" by blast
  from alt have "is_directive ci kw m0 m1"
  proof
    assume "\<exists>s2. s1 = BS # s2 \<and> match_tail ci kw s2 = Some (m1, rest)"
    then obtain s2 where s2: "s1 = BS # s2" "match_tail ci kw s2 = Some (m1, rest)" by blast
    from s2(2) obtain k where k: "m1 \<noteq> []" "RBRACE \<notin> set m1" "keyword_spelled ci kw k"
      "s2 = k @ LBRACE # m1 @ RBRACE # rest" unfolding match_tail_iff by blast
    from s s1 s2 k have "m0 @ rest = (BS # BS # k @ LBRACE # m1 @ [RBRACE]) @ rest" by simp
    then have "m0 = BS # BS # k @ LBRACE # m1 @ [RBRACE]" by (rule append_same_eq [THEN iffD1])
    with k show ?thesis unfolding is_directive_def by blast
  next
    assume "match_tail ci kw s1 = Some (m1, rest)"
    then obtain k where k: "m1 \<noteq> []" "RBRACE \<notin> set m1" "keyword_spelled ci kw k"
      "s1 = k @ LBRACE # m1 @ RBRACE # rest" unfolding match_tail_iff by blast
    from s s1 k have "m0 @ rest = (BS # k @ LBRACE # m1 @ [RBRACE]) @ rest" by simp
    then have "m0 = BS # k @ LBRACE # m1 @ [RBRACE]" by (rule append_same_eq [THEN iffD1])
    with k show ?thesis unfolding is_directive_def by blast
  qed
  with s show "s = m0 @ rest \<and> is_directive ci kw m0 m1" by simp
next
  assume a: "s = m0 @ rest \<and> is_directive ci kw m0 m1"
  then obtain k where k: "m1 \<noteq> []" "RBRACE \<notin> set m1" "keyword_spelled ci kw k"
    and alt: "m0 = BS # k @ LBRACE # m1 @ [RBRACE] \<or> m0 = BS # BS # k @ LBRACE # m1 @ [RBRACE]"
    unfolding is_directive_def by blast
  have nb: "BS \<notin> set k" using keyword_spelled_no_BS [OF k(3) assms] .
  have lb: "LBRACE \<noteq> BS" by (simp add: LBRACE_def BS_def)
  from alt show "match_at ci kw s = Some (m0, m1, rest)"
  proof
    assume m0: "m0 = BS # k @ LBRACE # m1 @ [RBRACE]"
    define s1 where "s1 = k @ LBRACE # m1 @ RBRACE # rest"
    from a m0 have s: "s = BS # s1" by (simp add: s1_def)
    have t: "match_tail ci kw s1 = Some (m1, rest)"
      unfolding match_tail_iff s1_def using k by blast
    have first: "(case s1 of [] \<Rightarrow> None | b # s2 \<Rightarrow> if b = BS then match_tail ci kw s2 else None) = None"
    proof (cases k)
      case Nil
      then show ?thesis using lb by (simp add: s1_def)
    next
      case (Cons c cs)
      with nb have "c \<noteq> BS" by auto
      with Cons show ?thesis by (simp add: s1_def)
    qed
    have "length s - length rest = length m0" using a by simp
    then have "take (length s - length rest) s = m0" using a by simp
    then show ?thesis unfolding match_at_def s using first t s by simp
  next
    assume m0: "m0 = BS # BS # k @ LBRACE # m1 @ [RBRACE]"
    define s2 where "s2 = k @ LBRACE # m1 @ RBRACE # rest"
    from a m0 have s: "s = BS # BS # s2" by (simp add: s2_def)
    have t: "match_tail ci kw s2 = Some (m1, rest)"
      unfolding match_tail_iff s2_def using k by blast
    have "length s - length rest = length m0" using a by simp
    then have "take (length s - length rest) s = m0" using a by simp
    then show ?thesis unfolding match_at_def s using t s by simp
  qed
qed

lemma match_at_directive_at:
  assumes "plain_keyword kw"
  shows "match_at ci kw s \<noteq> None \<longleftrightarrow> directive_at ci kw s"
proof
  assume "match_at ci kw s \<noteq> None"
  then obtain m0 m1 rest where "match_at ci kw s = Some (m0, m1, rest)" by auto
  then have "s = m0 @ rest \<and> is_directive ci kw m0 m1" using match_at_iff [OF assms] by blast
  then show "directive_at ci kw s" unfolding directive_at_def by auto
next
  assume "directive_at ci kw s"
  then obtain m0 m1 rest where "is_directive ci kw m0 m1" "s = m0 @ rest"
    unfolding directive_at_def prefix_def by blast
  then have "match_at ci kw s = Some (m0, m1, rest)" using match_at_iff [OF assms] by blast
  then show "match_at ci kw s \<noteq> None" by simp
qed

lemma find_directive_iff:
  assumes "plain_keyword kw"
  shows "find_directive ci kw s = Some (pre, m0, m1, rest) \<longleftrightarrow>
           s = pre @ m0 @ rest \<and> is_directive ci kw m0 m1 \<and>
           (\<forall>j < length pre. \<not> directive_at ci kw (drop j s))"
proof (induction s arbitrary: pre)
  case Nil
  have "find_directive ci kw [] = None"
    by (simp add: find_directive.simps [of _ _ "[]"] match_at_def)
  moreover have "\<not> is_directive ci kw [] m1" by (simp add: is_directive_def)
  ultimately show ?case by auto
next
  case (Cons c cs)
  show ?case
  proof (cases "match_at ci kw (c # cs)")
    case (Some r)
    obtain a b d where r: "r = (a, b, d)" by (cases r)
    with Some have f: "find_directive ci kw (c # cs) = Some ([], a, b, d)"
      by (simp add: find_directive.simps [of _ _ "c # cs"])
    from Some r have ad: "c # cs = a @ d" "is_directive ci kw a b"
      using match_at_iff [OF assms] by blast+
    from Some have da: "directive_at ci kw (c # cs)"
      using match_at_directive_at [OF assms, of ci "c # cs"] by simp
    show ?thesis
    proof
      assume "find_directive ci kw (c # cs) = Some (pre, m0, m1, rest)"
      with f ad show "c # cs = pre @ m0 @ rest \<and> is_directive ci kw m0 m1 \<and>
           (\<forall>j < length pre. \<not> directive_at ci kw (drop j (c # cs)))" by simp
    next
      assume h: "c # cs = pre @ m0 @ rest \<and> is_directive ci kw m0 m1 \<and>
           (\<forall>j < length pre. \<not> directive_at ci kw (drop j (c # cs)))"
      have "pre = []"
      proof (rule ccontr)
        assume "pre \<noteq> []"
        then have "0 < length pre" by simp
        with h have "\<not> directive_at ci kw (drop 0 (c # cs))" by blast
        with da show False by simp
      qed
      with h have "match_at ci kw (c # cs) = Some (m0, m1, rest)"
        using match_at_iff [OF assms] by simp
      with Some r f \<open>pre = []\<close> show "find_directive ci kw (c # cs) = Some (pre, m0, m1, rest)"
        by simp
    qed
  next
    case None
    then have nda: "\<not> directive_at ci kw (c # cs)"
      using match_at_directive_at [OF assms, of ci "c # cs"] by simp
    have f: "find_directive ci kw (c # cs) =
        (case find_directive ci kw cs of None \<Rightarrow> None
         | Some (pre, m0, m1, rest) \<Rightarrow> Some (c # pre, m0, m1, rest))"
      using None by (simp add: find_directive.simps [of _ _ "c # cs"])
    show ?thesis
    proof
      assume a: "find_directive ci kw (c # cs) = Some (pre, m0, m1, rest)"
      with f obtain pre' where p: "find_directive ci kw cs = Some (pre', m0, m1, rest)" "pre = c # pre'"
        by (auto split: option.splits)
      from p(1) have ih: "cs = pre' @ m0 @ rest" "is_directive ci kw m0 m1"
        "\<forall>j < length pre'. \<not> directive_at ci kw (drop j cs)"
        using Cons.IH [of pre'] by blast+
      have "\<forall>j < length pre. \<not> directive_at ci kw (drop j (c # cs))"
      proof (intro allI impI)
        fix j assume j: "j < length pre"
        show "\<not> directive_at ci kw (drop j (c # cs))"
        proof (cases j)
          case 0
          with nda show ?thesis by simp
        next
          case (Suc j')
          with j p(2) have "j' < length pre'" by simp
          with ih(3) Suc show ?thesis by simp
        qed
      qed
      with ih p(2) show "c # cs = pre @ m0 @ rest \<and> is_directive ci kw m0 m1 \<and>
           (\<forall>j < length pre. \<not> directive_at ci kw (drop j (c # cs)))" by simp
    next
      assume h: "c # cs = pre @ m0 @ rest \<and> is_directive ci kw m0 m1 \<and>
           (\<forall>j < length pre. \<not> directive_at ci kw (drop j (c # cs)))"
      have "pre \<noteq> []"
      proof
        assume "pre = []"
        with h have "directive_at ci kw (c # cs)" unfolding directive_at_def by auto
        with nda show False by simp
      qed
      then obtain pre' where p: "pre = c # pre'" using h by (cases pre) auto
      have "\<forall>j < length pre'. \<not> directive_at ci kw (drop j cs)"
      proof (intro allI impI)
        fix j assume "j < length pre'"
        then have "Suc j < length pre" using p by simp
        with h have "\<not> directive_at ci kw (drop (Suc j) (c # cs))" by blast
        then show "\<not> directive_at ci kw (drop j cs)" by simp
      qed
      with h p have "find_directive ci kw cs = Some (pre', m0, m1, rest)"
        using Cons.IH [of pre'] by simp
      with f p show "find_directive ci kw (c # cs) = Some (pre, m0, m1, rest)" by simp
    qed
  qed
qed

lemma find_directive_None_iff:
  assumes "plain_keyword kw"
  shows "find_directive ci kw s = None \<longleftrightarrow> (\<forall>j. \<not> directive_at ci kw (drop j s))"
proof (induction s)
  case Nil
  have "find_directive ci kw [] = None"
    by (simp add: find_directive.simps [of _ _ "[]"] match_at_def)
  moreover have "\<not> directive_at ci kw []"
    by (auto simp: directive_at_def is_directive_def)
  ultimately show ?case by simp
next
  case (Cons c cs)
  show ?case
  proof (cases "match_at ci kw (c # cs)")
    case (Some r)
    obtain a b d where r: "r = (a, b, d)" by (cases r)
    with Some have "find_directive ci kw (c # cs) \<noteq> None"
      by (simp add: find_directive.simps [of _ _ "c # cs"])
    moreover from Some have "directive_at ci kw (drop 0 (c # cs))"
      using match_at_directive_at [OF assms, of ci "c # cs"] by simp
    ultimately show ?thesis by blast
  next
    case None
    then have nda: "\<not> directive_at ci kw (c # cs)"
      using match_at_directive_at [OF assms, of ci "c # cs"] by simp
    have "find_directive ci kw (c # cs) = None \<longleftrightarrow> find_directive ci kw cs = None"
      using None by (simp add: find_directive.simps [of _ _ "c # cs"] split: option.splits)
    also have "\<dots> \<longleftrightarrow> (\<forall>j. \<not> directive_at ci kw (drop j cs))" using Cons.IH .
    also have "\<dots> \<longleftrightarrow> (\<forall>j. \<not> directive_at ci kw (drop j (c # cs)))"
    proof
      assume a: "\<forall>j. \<not> directive_at ci kw (drop j cs)"
      show "\<forall>j. \<not> directive_at ci kw (drop j (c # cs))"
      proof
        fix j show "\<not> directive_at ci kw (drop j (c # cs))"
          using a nda by (cases j) simp_all
      qed
    next
      assume a: "\<forall>j. \<not> directive_at ci kw (drop j (c # cs))"
      show "\<forall>j. \<not> directive_at ci kw (drop j cs)"
      proof
        fix j from a have "\<not> directive_at ci kw (drop (Suc j) (c # cs))" by blast
        then show "\<not> directive_at ci kw (drop j cs)" by simp
      qed
    qed
    finally show ?thesis .
  qed
qed

section \<open>The text between the steps of a line\<close>

text \<open>
  The value of the variable \<^verbatim>\<open>text\<close> when each directive is looked for, the tags taken
  from the tags directive, and the last step from the text without references to the field
  \<^verbatim>\<open>text\<close> of the node.
\<close>

definition text_at_color :: "string \<Rightarrow> string" where
  "text_at_color raw = trim (snd (getDepth raw))"

definition text_at_label :: "string \<Rightarrow> string" where
  "text_at_label raw = snd (extract_directive True ''color'' (text_at_color raw))"

definition text_at_pos :: "string \<Rightarrow> string" where
  "text_at_pos raw = snd (extract_directive False ''label'' (text_at_label raw))"

definition text_at_jp :: "string \<Rightarrow> string" where
  "text_at_jp raw = snd (extract_directive True ''pos'' (text_at_pos raw))"

definition text_at_tags :: "string \<Rightarrow> string" where
  "text_at_tags raw = snd (extract_directive True ''jp'' (text_at_jp raw))"

definition text_at_refs :: "string \<Rightarrow> string" where
  "text_at_refs raw = snd (extract_directive True ''tags'' (text_at_tags raw))"

definition declared_tags :: "string \<Rightarrow> string list" where
  "declared_tags raw =
     (case fst (extract_directive True ''tags'' (text_at_tags raw)) of
        None \<Rightarrow> []
      | Some m1 \<Rightarrow> filter (\<lambda>t. t \<noteq> []) (map (\<lambda>t. toLowerCase (trim t)) (split_tags m1)))"

definition display_text :: "string \<Rightarrow> string" where
  "display_text t = (let text = trim (collapse t) in if text \<noteq> [] then text else ''(untitled)'')"

lemma make_node_eq:
  "make_node idx raw =
     RawNode
       \<lparr>id' = ''n_'' @ show_nat idx,
        depth = int (fst (getDepth raw)),
        line = int idx,
        text' = display_text (remove_refs (text_at_refs raw)),
        jp = map_option trim (fst (extract_directive True ''jp'' (text_at_jp raw))),
        label = map_option trim (fst (extract_directive False ''label'' (text_at_label raw))),
        color = resolveColor (map_option trim (fst (extract_directive True ''color'' (text_at_color raw)))),
        effectiveColor = None,
        refs = map (\<lambda>(pre, m0, m1). trim m1) (ref_matches (text_at_refs raw)),
        pos = map_option (\<lambda>m1. toLowerCase (trim m1)) (fst (extract_directive True ''pos'' (text_at_pos raw))),
        tags = declared_tags raw @
          (case fst (extract_directive True ''pos'' (text_at_pos raw)) of
             None \<Rightarrow> []
           | Some m1 \<Rightarrow> if toLowerCase (trim m1) \<noteq> [] then [toLowerCase (trim m1)] else [])\<rparr> []"
  unfolding make_node_def text_at_refs_def text_at_tags_def text_at_jp_def text_at_pos_def
    text_at_label_def text_at_color_def declared_tags_def display_text_def
  by (simp add: Let_def split: prod.splits option.splits)


lemma plain_keywords:
  "plain_keyword ''color''" "plain_keyword ''label''" "plain_keyword ''pos''"
  "plain_keyword ''jp''" "plain_keyword ''tags''" "plain_keyword ''ref''"
  by code_simp+

section \<open>Part of speech (C10)\<close>

text \<open>
  Claim C10, as amended.  When the first part-of-speech directive in the text at that step
  has the payload \<open>m1\<close>, the field \<^verbatim>\<open>pos\<close> is \<open>m1\<close> trimmed and in lower case, and the tags
  are the declared tags followed by that lower-case form, unless it is empty: a payload of
  white space only gives the part of speech \<^verbatim>\<open>""\<close>, and the guard \<^verbatim>\<open>if (pos)\<close> adds no tag
  then.
\<close>

theorem pos_lowercased_and_tagged:
  assumes "text_at_pos raw = pre @ m0 @ rest"
    and "is_directive True ''pos'' m0 m1"
    and "\<forall>j < length pre. \<not> directive_at True ''pos'' (drop j (text_at_pos raw))"
  shows "pos (info (make_node idx raw)) = Some (toLowerCase (trim m1)) \<and>
         tags (info (make_node idx raw)) =
           declared_tags raw @ (if toLowerCase (trim m1) \<noteq> [] then [toLowerCase (trim m1)] else [])"
proof -
  from assms have "find_directive True ''pos'' (text_at_pos raw) = Some (pre, m0, m1, rest)"
    using find_directive_iff [OF plain_keywords(3)] by blast
  then have "fst (extract_directive True ''pos'' (text_at_pos raw)) = Some m1"
    by (simp add: extract_directive_def)
  then show ?thesis by (simp add: make_node_eq)
qed

theorem pos_lowercased_and_tagged_witness:
  "pos (info (make_node 0 (''w '' @ BS # ''pos{ NOUN }''))) = Some ''noun'' \<and>
   tags (info (make_node 0 (''w '' @ BS # ''pos{ NOUN }''))) = [''noun'']"
proof -
  define raw where "raw = ''w '' @ BS # ''pos{ NOUN }''"
  have f: "find_directive True ''pos'' (text_at_pos raw) =
             Some (''w '', BS # ''pos{ NOUN }'', '' NOUN '', [])"
    unfolding raw_def by code_simp
  have h: "text_at_pos raw = ''w '' @ (BS # ''pos{ NOUN }'') @ [] \<and>
        is_directive True ''pos'' (BS # ''pos{ NOUN }'') '' NOUN '' \<and>
        (\<forall>j < length ''w ''. \<not> directive_at True ''pos'' (drop j (text_at_pos raw)))"
    using f find_directive_iff [OF plain_keywords(3), of True "text_at_pos raw"] by blast
  have d: "declared_tags raw = []" unfolding raw_def by code_simp
  have l: "toLowerCase (trim '' NOUN '') = ''noun''" by code_simp
  from h have h1: "text_at_pos raw = ''w '' @ (BS # ''pos{ NOUN }'') @ []"
    and h2: "is_directive True ''pos'' (BS # ''pos{ NOUN }'') '' NOUN ''"
    and h3: "\<forall>j < length ''w ''. \<not> directive_at True ''pos'' (drop j (text_at_pos raw))"
    by blast+
  from pos_lowercased_and_tagged [OF h1 h2 h3, of 0] d l show ?thesis
    unfolding raw_def by simp
qed

text \<open>
  The line \<^verbatim>\<open>w \pos{ }\<close>: the directive matches with the payload of one space, the part of
  speech is its trimmed lower-case form, and that form is not among the tags.
\<close>

theorem pos_blank_payload_counterexample:
  "text_at_pos (''w '' @ BS # ''pos{ }'') = ''w '' @ (BS # ''pos{ }'') @ [] \<and>
   find_directive True ''pos'' (''w '' @ BS # ''pos{ }'') = Some (''w '', BS # ''pos{ }'', '' '', []) \<and>
   pos (info (make_node 0 (''w '' @ BS # ''pos{ }''))) = Some (toLowerCase (trim '' '')) \<and>
   toLowerCase (trim '' '') \<notin> set (tags (info (make_node 0 (''w '' @ BS # ''pos{ }''))))"
  by code_simp

section \<open>Colour payloads (C6)\<close>

lemma trim_no_white: "s \<noteq> [] \<Longrightarrow> \<not> isWhite (hd s) \<Longrightarrow> \<not> isWhite (last s) \<Longrightarrow> trim s = s"
proof -
  assume a: "s \<noteq> []" "\<not> isWhite (hd s)" "\<not> isWhite (last s)"
  then have "dropWhile isWhite s = s" by (cases s) simp_all
  moreover from a have "dropWhile isWhite (rev s) = rev s"
    by (cases "rev s") (simp_all add: last_rev [symmetric] hd_rev)
  ultimately show ?thesis by (simp add: trim_def)
qed

lemma isHexDigit_not_white: "isHexDigit c \<Longrightarrow> \<not> isWhite c"
proof
  assume h: "isHexDigit c" and w: "isWhite c"
  from w have "(of_char c :: nat) \<in> {9, 10, 11, 12, 13, 32, 160}"
    by (auto simp: isWhite_def)
  with h show False by (auto simp: isHexDigit_def Let_def)
qed

lemma isHexColor_trim: "isHexColor s \<Longrightarrow> trim s = s"
proof -
  assume h: "isHexColor s"
  then obtain ds where s: "s = CHR ''#'' # ds" and ds: "list_all isHexDigit ds"
    and len: "length ds = 3 \<or> length ds = 6 \<or> length ds = 8"
    by (cases s) (auto simp: isHexColor_def)
  from len have "ds \<noteq> []" by auto
  note ds = ds this
  from ds have "isHexDigit (last ds)" by (simp add: list_all_iff)
  then have "\<not> isWhite (last s)" using s ds(2) by (simp add: isHexDigit_not_white)
  moreover have "\<not> isWhite (hd s)" using s by (simp add: isWhite_def)
  ultimately show ?thesis using s by (intro trim_no_white) simp_all
qed

text \<open>
  What \<^verbatim>\<open>resolveColor\<close> does for every payload: a hex literal is returned as it is; another
  payload, trimmed and in lower case, is read from the table, which gives the preset of
  that name, a member of \<^verbatim>\<open>Object.prototype\<close> when the name is one of its property names,
  and no colour otherwise.
\<close>

lemma resolveColor_cases:
  "resolveColor (Some s) =
     (if s = [] then None
      else if isHexColor (trim s) then Some (ColorString (trim s))
      else case map_of COLOR_PRESETS (toLowerCase (trim s)) of
             Some v \<Rightarrow> Some (ColorString v)
           | None \<Rightarrow> if toLowerCase (trim s) \<in> set Object_prototype_names
                     then Some (PrototypeMember (toLowerCase (trim s))) else None)"
  by (simp add: resolveColor_def COLOR_PRESETS_get_def Let_def)

lemma resolveColor_hex: "isHexColor s \<Longrightarrow> resolveColor (Some s) = Some (ColorString s)"
  by (auto simp: resolveColor_cases isHexColor_trim) (simp add: isHexColor_def)

lemma resolveColor_RED: "resolveColor (Some ''RED'') = map_option ColorString (map_of COLOR_PRESETS ''red'')"
  by code_simp

text \<open>
  Claim C6 at the payloads \<^verbatim>\<open>constructor\<close> and \<^verbatim>\<open>__proto__\<close>, which are neither hex literals
  nor preset names: the claim says that they resolve to no colour; \<^verbatim>\<open>resolveColor\<close> returns
  the members of \<^verbatim>\<open>Object.prototype\<close> of these names, also for another letter case.  An
  unknown name that is no such property name, as \<^verbatim>\<open>unknown\<close>, resolves to no colour.
\<close>

theorem resolveColor_prototype_member:
  "resolveColor (Some ''constructor'') = Some (PrototypeMember ''constructor'') \<and>
   resolveColor (Some ''Constructor'') = Some (PrototypeMember ''constructor'') \<and>
   resolveColor (Some ''__proto__'') = Some (PrototypeMember ''__proto__'') \<and>
   resolveColor (Some ''unknown'') = None"
  by code_simp

section \<open>Letter case of the keywords (C7)\<close>

text \<open>
  Under the flag \<^verbatim>\<open>i\<close> every spelling of the keyword that differs in letter case only is
  matched like the keyword.
\<close>

lemma directive_any_case:
  assumes "plain_keyword kw" "map canonicalize k = map canonicalize kw"
    "m1 \<noteq> []" "RBRACE \<notin> set m1"
  shows "match_at True kw (BS # k @ LBRACE # m1 @ RBRACE # rest) =
           Some (BS # k @ LBRACE # m1 @ [RBRACE], m1, rest)"
proof -
  from assms have "is_directive True kw (BS # k @ LBRACE # m1 @ [RBRACE]) m1"
    unfolding is_directive_def keyword_spelled_def by auto
  then show ?thesis using match_at_iff [OF assms(1), of True] by simp
qed

text \<open>
  Claim C7 at the lines \<^verbatim>\<open>a \LABEL{x}\<close> and \<^verbatim>\<open>b \Ref{x}\<close>: the claim says that the label and the
  reference are extracted as for the lower-case keywords; the patterns of \<^verbatim>\<open>label\<close> and
  \<^verbatim>\<open>ref\<close> have no flag \<^verbatim>\<open>i\<close>, so nothing is extracted and the directive stays in the text.
  The pattern of \<^verbatim>\<open>color\<close>, which has the flag, matches \<^verbatim>\<open>\COLOR{red}\<close>.
\<close>

theorem label_ref_keywords_case_sensitive:
  "label (info (make_node 0 (''a '' @ BS # ''LABEL{x}''))) = None \<and>
   text' (info (make_node 0 (''a '' @ BS # ''LABEL{x}''))) = ''a '' @ BS # ''LABEL{x}'' \<and>
   label (info (make_node 0 (''a '' @ BS # ''label{x}''))) = Some ''x'' \<and>
   text' (info (make_node 0 (''a '' @ BS # ''label{x}''))) = ''a'' \<and>
   refs (info (make_node 0 (''b '' @ BS # ''Ref{x}''))) = [] \<and>
   text' (info (make_node 0 (''b '' @ BS # ''Ref{x}''))) = ''b '' @ BS # ''Ref{x}'' \<and>
   refs (info (make_node 0 (''b '' @ BS # ''ref{x}''))) = [''x''] \<and>
   text' (info (make_node 0 (''b '' @ BS # ''ref{x}''))) = ''b'' \<and>
   color (info (make_node 0 (''c '' @ BS # ''COLOR{red}''))) = Some (ColorString ''#ef4444'') \<and>
   text' (info (make_node 0 (''c '' @ BS # ''COLOR{red}''))) = ''c''"
  by code_simp

section \<open>The line loop keeps the tree and the stack in step\<close>

text \<open>
  \<open>info_at r p\<close> is the record of the node at the position \<open>p\<close> of the tree \<open>r\<close>.
  \<open>stack_ok\<close> says of the stack, from its top: the bottom entry is the root; each entry
  is more recent and deeper than the entry below it; and every node created after the
  lower and up to the upper of two neighbours is at least as deep as the upper one.
  \<open>state_ok ls st\<close> says that \<open>st\<close> is in step with the lines \<open>ls\<close> read so far: the top
  of the stack is the most recent node, the nodes other than the root are the nodes of
  the lines that are not blank, and a child is deeper than its parent.
\<close>

definition info_at :: "RawNode \<Rightarrow> nat list \<Rightarrow> RawNode_fields option" where
  "info_at r p = map_option info (node_at r p)"

lemma node_at_append:
  "node_at r (p @ q) = (case node_at r p of None \<Rightarrow> None | Some n \<Rightarrow> node_at n q)"
  by (induction r p rule: node_at.induct) simp_all

lemma node_at_push_child_same:
  "node_at r p = Some (RawNode f cs) \<Longrightarrow> node_at (push_child p new r) p = Some (RawNode f (cs @ [new]))"
proof (induction p new r rule: push_child.induct)
  case (1 new f' cs')
  then show ?case by simp
next
  case (2 i p new f' cs')
  then show ?case by (simp split: if_splits)
qed

lemma info_at_push_child:
  assumes "node_at r p = Some parent" "children new = []"
  shows "info_at (push_child p new r) x =
           (if x = p @ [length (children parent)] then Some (info new) else info_at r x)"
  using assms
proof (induction p new r arbitrary: x rule: push_child.induct)
  case (1 new f cs)
  then have parent: "parent = RawNode f cs" by simp
  show ?case
  proof (cases x)
    case Nil
    then show ?thesis by (simp add: info_at_def)
  next
    case (Cons i y)
    show ?thesis
    proof (cases "i < length cs")
      case True
      with Cons parent show ?thesis by (simp add: info_at_def nth_append)
    next
      case False
      show ?thesis
      proof (cases "i = length cs")
        case True
        with Cons parent "1.prems"(2) show ?thesis
          by (cases y) (simp_all add: info_at_def)
      next
        case F2: False
        with False Cons parent show ?thesis by (simp add: info_at_def)
      qed
    qed
  qed
next
  case (2 i p new f cs)
  from "2.prems"(1) have i: "i < length cs" and at: "node_at (cs ! i) p = Some parent"
    by (simp_all split: if_splits)
  have IH: "\<And>x. info_at (push_child p new (cs ! i)) x =
           (if x = p @ [length (children parent)] then Some (info new) else info_at (cs ! i) x)"
    using "2.IH" [OF i at "2.prems"(2)] .
  show ?case
  proof (cases x)
    case Nil
    with i show ?thesis by (simp add: info_at_def)
  next
    case (Cons j y)
    show ?thesis
    proof (cases "j = i")
      case True
      with Cons i IH [of y] show ?thesis by (simp add: info_at_def)
    next
      case False
      with Cons i show ?thesis by (simp add: info_at_def)
    qed
  qed
qed


lemma info_at_Some: "info_at r p = Some f \<longleftrightarrow> (\<exists>n. node_at r p = Some n \<and> info n = f)"
  by (auto simp: info_at_def)

lemma info_at_fresh_child:
  "node_at r p = Some parent \<Longrightarrow> info_at r (p @ [length (children parent)]) = None"
  by (simp add: info_at_def node_at_append)

fun stack_ok :: "RawNode \<Rightarrow> nat list list \<Rightarrow> bool" where
  "stack_ok r [] \<longleftrightarrow> False"
| "stack_ok r [p] \<longleftrightarrow> p = []"
| "stack_ok r (p # q # ps) \<longleftrightarrow>
     (\<exists>f g. info_at r p = Some f \<and> info_at r q = Some g \<and> line g < line f \<and> depth g < depth f \<and>
            (\<forall>x y. info_at r x = Some y \<longrightarrow> line g < line y \<longrightarrow> line y \<le> line f \<longrightarrow>
                   depth f \<le> depth y)) \<and>
     stack_ok r (q # ps)"

lemma stack_ok_last: "stack_ok r s \<Longrightarrow> s \<noteq> [] \<and> last s = []"
  by (induction r s rule: stack_ok.induct) auto

lemma pop_stack_ok:
  assumes "stack_ok r s" "info_at r [] = Some g0" "depth g0 < d"
  shows "\<exists>p ps f top.
           pop_stack r d s = Inr (p # ps) \<and> suffix (p # ps) s \<and> stack_ok r (p # ps) \<and>
           info_at r p = Some f \<and> depth f < d \<and>
           info_at r (hd s) = Some top \<and> line f \<le> line top \<and>
           (\<forall>x y. info_at r x = Some y \<longrightarrow> line f < line y \<longrightarrow> line y \<le> line top \<longrightarrow> d \<le> depth y)"
  using assms
proof (induction r s rule: stack_ok.induct)
  case (1 r)
  then show ?case by simp
next
  case (2 r p)
  then have p: "p = []" by simp
  with 2 obtain n where n: "node_at r p = Some n" "info n = g0" by (auto simp: info_at_Some)
  with 2 p have "pop_stack r d [p] = Inr [p]" by simp
  with 2 p show ?case by auto
next
  case (3 r p q ps)
  from "3.prems"(1) obtain f g where fg: "info_at r p = Some f" "info_at r q = Some g"
    "line g < line f" "depth g < depth f"
    "\<forall>x y. info_at r x = Some y \<longrightarrow> line g < line y \<longrightarrow> line y \<le> line f \<longrightarrow> depth f \<le> depth y"
    and ok: "stack_ok r (q # ps)" by auto
  from fg(1) obtain n where n: "node_at r p = Some n" "info n = f" by (auto simp: info_at_Some)
  show ?case
  proof (cases "depth f \<ge> d")
    case False
    with n have "pop_stack r d (p # q # ps) = Inr (p # q # ps)" by simp
    moreover have "suffix (p # q # ps) (p # q # ps)" by simp
    ultimately show ?thesis using "3.prems"(1) fg(1) False by force
  next
    case True
    with n have eq: "pop_stack r d (p # q # ps) = pop_stack r d (q # ps)" by simp
    from "3.IH" [OF ok "3.prems"(2,3)] obtain p' ps' f' top where
      IH: "pop_stack r d (q # ps) = Inr (p' # ps')" "suffix (p' # ps') (q # ps)"
        "stack_ok r (p' # ps')" "info_at r p' = Some f'" "depth f' < d"
        "info_at r (hd (q # ps)) = Some top" "line f' \<le> line top"
        "\<forall>x y. info_at r x = Some y \<longrightarrow> line f' < line y \<longrightarrow> line y \<le> line top \<longrightarrow> d \<le> depth y"
      by blast
    from IH(6) fg(2) have top: "top = g" by simp
    have "\<forall>x y. info_at r x = Some y \<longrightarrow> line f' < line y \<longrightarrow> line y \<le> line f \<longrightarrow> d \<le> depth y"
    proof (intro allI impI)
      fix x y assume y: "info_at r x = Some y" "line f' < line y" "line y \<le> line f"
      show "d \<le> depth y"
      proof (cases "line y \<le> line g")
        case True
        with IH(8) y top show ?thesis by blast
      next
        case False
        with fg(5) y have "depth f \<le> depth y" by simp
        with \<open>depth f \<ge> d\<close> show ?thesis by simp
      qed
    qed
    moreover have "suffix (p' # ps') (p # q # ps)" using IH(2) by (simp add: suffix_Cons)
    moreover have "line f' \<le> line f" using IH(7) top fg(3) by simp
    ultimately show ?thesis using eq IH fg(1) by force
  qed
qed


definition state_ok :: "string list \<Rightarrow> parse_state \<Rightarrow> bool" where
  "state_ok ls st \<longleftrightarrow>
     stack_ok (root st) (stack st) \<and>
     info_at (root st) [] = Some (info root_node) \<and>
     (\<exists>f. info_at (root st) (hd (stack st)) = Some f \<and>
          (\<forall>x y. info_at (root st) x = Some y \<longrightarrow> line y \<le> line f)) \<and>
     (\<forall>x y. info_at (root st) x = Some y \<longrightarrow> x \<noteq> [] \<longrightarrow>
            (\<exists>i < length ls. trim (ls ! i) \<noteq> [] \<and> y = info (make_node i (ls ! i)))) \<and>
     (\<forall>i < length ls. trim (ls ! i) \<noteq> [] \<longrightarrow>
            (\<exists>x. x \<noteq> [] \<and> info_at (root st) x = Some (info (make_node i (ls ! i))))) \<and>
     (\<forall>x j y g. info_at (root st) (x @ [j]) = Some y \<longrightarrow> info_at (root st) x = Some g \<longrightarrow>
            depth g < depth y)"

lemma make_node_simps:
  "children (make_node idx raw) = []"
  "depth (info (make_node idx raw)) = int (fst (getDepth raw))"
  "line (info (make_node idx raw)) = int idx"
  "id' (info (make_node idx raw)) = ''n_'' @ show_nat idx"
  "effectiveColor (info (make_node idx raw)) = None"
  by (simp_all add: make_node_eq)

lemma root_node_simps:
  "depth (info root_node) = - 1" "line (info root_node) = - 1" "id' (info root_node) = ''root''"
  "children root_node = []" "color (info root_node) = None" "refs (info root_node) = []"
  by (simp_all add: root_node_def)

lemma info_at_prefix: "info_at r (x @ [j]) = Some y \<Longrightarrow> \<exists>g. info_at r x = Some g"
  by (auto simp: info_at_def node_at_append split: option.splits)

lemma state_ok_line_bound:
  assumes "state_ok ls st" "info_at (root st) x = Some y"
  shows "line y < int (length ls) \<and> (x \<noteq> [] \<longrightarrow> 0 \<le> depth y \<and> 0 \<le> line y)"
proof (cases "x = []")
  case True
  with assms have "y = info root_node" by (simp add: state_ok_def)
  with True show ?thesis by (simp add: root_node_simps)
next
  case False
  with assms obtain i where "i < length ls" "y = info (make_node i (ls ! i))"
    unfolding state_ok_def by blast
  with False show ?thesis by (simp add: make_node_simps)
qed

lemma stack_ok_push_child:
  assumes "stack_ok r s" "node_at r p0 = Some parent" "children new = []"
    and "\<forall>x y. info_at r x = Some y \<longrightarrow> line y < line (info new)"
  shows "stack_ok (push_child p0 new r) s"
  using assms
proof (induction r s rule: stack_ok.induct)
  case (1 r)
  then show ?case by simp
next
  case (2 r p)
  then show ?case by simp
next
  case (3 r p q ps)
  let ?r' = "push_child p0 new r"
  let ?np = "p0 @ [length (children parent)]"
  have new: "\<And>x. info_at ?r' x = (if x = ?np then Some (info new) else info_at r x)"
    using info_at_push_child [OF "3.prems"(2,3)] .
  have fresh: "info_at r ?np = None" using info_at_fresh_child [OF "3.prems"(2)] .
  from "3.prems"(1) obtain f g where fg: "info_at r p = Some f" "info_at r q = Some g"
    "line g < line f" "depth g < depth f"
    "\<forall>x y. info_at r x = Some y \<longrightarrow> line g < line y \<longrightarrow> line y \<le> line f \<longrightarrow> depth f \<le> depth y"
    and ok: "stack_ok r (q # ps)" by auto
  from fg fresh have ne: "p \<noteq> ?np" "q \<noteq> ?np" by auto
  have "\<forall>x y. info_at ?r' x = Some y \<longrightarrow> line g < line y \<longrightarrow> line y \<le> line f \<longrightarrow> depth f \<le> depth y"
  proof (intro allI impI)
    fix x y assume y: "info_at ?r' x = Some y" "line g < line y" "line y \<le> line f"
    show "depth f \<le> depth y"
    proof (cases "x = ?np")
      case True
      with y new have "y = info new" by simp
      with "3.prems"(4) fg(1) y(3) show ?thesis by force
    next
      case False
      with y new have "info_at r x = Some y" by simp
      with fg(5) y show ?thesis by blast
    qed
  qed
  moreover have "stack_ok ?r' (q # ps)" using "3.IH" [OF ok "3.prems"(2,3,4)] .
  moreover have "info_at ?r' p = Some f" "info_at ?r' q = Some g" using fg ne new by simp_all
  ultimately show ?case using fg(3,4) by auto
qed


definition set_label :: "RawNode \<Rightarrow> (string \<rightharpoonup> string) \<Rightarrow> (string \<rightharpoonup> string)" where
  "set_label node m =
     (case label (info node) of
        None \<Rightarrow> m
      | Some l \<Rightarrow> if l \<noteq> [] then m(l \<mapsto> id' (info node)) else m)"

lemma parse_line_step:
  assumes ok: "state_ok ls st" and nonblank: "trim raw \<noteq> []"
  shows "\<exists>p ps parent.
           pop_stack (root st) (depth (info (make_node (length ls) raw))) (stack st) = Inr (p # ps) \<and>
           suffix (p # ps) (stack st) \<and>
           node_at (root st) p = Some parent \<and>
           depth (info parent) < depth (info (make_node (length ls) raw)) \<and>
           (\<forall>x y. info_at (root st) x = Some y \<longrightarrow>
                  depth y < depth (info (make_node (length ls) raw)) \<longrightarrow>
                  line y \<le> line (info parent)) \<and>
           parse_line (length ls) raw st =
             Inr \<lparr>root = push_child p (make_node (length ls) raw) (root st),
                  stack = (p @ [length (children parent)]) # p # ps,
                  labelToId = set_label (make_node (length ls) raw) (labelToId st)\<rparr> \<and>
           state_ok (ls @ [raw])
             \<lparr>root = push_child p (make_node (length ls) raw) (root st),
              stack = (p @ [length (children parent)]) # p # ps,
              labelToId = set_label (make_node (length ls) raw) (labelToId st)\<rparr>"
proof -
  define node where "node = make_node (length ls) raw"
  define d where "d = depth (info node)"
  define r where "r = root st"
  have node: "children node = []" "line (info node) = int (length ls)" "0 \<le> d"
    by (simp_all add: node_def d_def make_node_simps)
  from ok have sok: "stack_ok r (stack st)" and r0: "info_at r [] = Some (info root_node)"
    and inv4: "\<forall>x y. info_at r x = Some y \<longrightarrow> x \<noteq> [] \<longrightarrow>
            (\<exists>i < length ls. trim (ls ! i) \<noteq> [] \<and> y = info (make_node i (ls ! i)))"
    and inv5: "\<forall>i < length ls. trim (ls ! i) \<noteq> [] \<longrightarrow>
            (\<exists>x. x \<noteq> [] \<and> info_at r x = Some (info (make_node i (ls ! i))))"
    and inv6: "\<forall>x j y g. info_at r (x @ [j]) = Some y \<longrightarrow> info_at r x = Some g \<longrightarrow> depth g < depth y"
    unfolding state_ok_def r_def by blast+
  from ok obtain ftop where ftop: "info_at r (hd (stack st)) = Some ftop"
    "\<forall>x y. info_at r x = Some y \<longrightarrow> line y \<le> line ftop"
    unfolding state_ok_def r_def by blast
  have bound: "\<And>x y. info_at r x = Some y \<Longrightarrow> line y < int (length ls)"
    using state_ok_line_bound [OF ok] unfolding r_def by blast
  have "depth (info root_node) < d" using node(3) by (simp add: root_node_simps)
  from pop_stack_ok [OF sok r0 this] obtain p ps f top where
    pop: "pop_stack r d (stack st) = Inr (p # ps)" and suf: "suffix (p # ps) (stack st)"
    and sok': "stack_ok r (p # ps)" and f: "info_at r p = Some f" "depth f < d"
    and top: "info_at r (hd (stack st)) = Some top" "line f \<le> line top"
    and deep: "\<forall>x y. info_at r x = Some y \<longrightarrow> line f < line y \<longrightarrow> line y \<le> line top \<longrightarrow> d \<le> depth y"
    by blast
  from top(1) ftop(1) have tt: "top = ftop" by simp
  from f(1) obtain parent where parent: "node_at r p = Some parent" "info parent = f"
    by (auto simp: info_at_Some)
  define np where "np = p @ [length (children parent)]"
  define r' where "r' = push_child p node r"
  define st' where "st' = \<lparr>root = r', stack = np # p # ps, labelToId = set_label node (labelToId st)\<rparr>"
  have new: "\<And>x. info_at r' x = (if x = np then Some (info node) else info_at r x)"
    unfolding r'_def np_def using info_at_push_child [OF parent(1) node(1)] .
  have fresh: "info_at r np = None" unfolding np_def using info_at_fresh_child [OF parent(1)] .
  have old: "\<And>x y. info_at r x = Some y \<Longrightarrow> info_at r' x = Some y"
    using new fresh by auto
  have recent: "\<forall>x y. info_at r x = Some y \<longrightarrow> depth y < d \<longrightarrow> line y \<le> line (info parent)"
  proof (intro allI impI)
    fix x y assume y: "info_at r x = Some y" "depth y < d"
    show "line y \<le> line (info parent)"
    proof (rule ccontr)
      assume "\<not> line y \<le> line (info parent)"
      then have "line f < line y" using parent(2) by simp
      moreover from ftop(2) y(1) tt have "line y \<le> line top" by simp
      ultimately have "d \<le> depth y" using deep y(1) by blast
      with y(2) show False by simp
    qed
  qed
  have pl: "parse_line (length ls) raw st = Inr st'"
    using nonblank pop [unfolded d_def r_def node_def] parent(1) [unfolded r_def]
    unfolding parse_line_def st'_def r'_def np_def set_label_def node_def r_def
    by (simp add: Let_def)
  have ok': "state_ok (ls @ [raw]) st'"
  proof -
    have 1: "stack_ok r' (np # p # ps)"
    proof -
      have "stack_ok r' (p # ps)"
        unfolding r'_def
        by (rule stack_ok_push_child [OF sok' parent(1) node(1)]) (simp add: node(2) bound)
      moreover have "info_at r' np = Some (info node)" using new by simp
      moreover have "info_at r' p = Some f" using old f(1) by simp
      moreover have "line f < line (info node)" using bound [OF f(1)] node(2) by simp
      moreover have "\<forall>x y. info_at r' x = Some y \<longrightarrow> line f < line y \<longrightarrow>
                       line y \<le> line (info node) \<longrightarrow> depth (info node) \<le> depth y"
      proof (intro allI impI)
        fix x y assume y: "info_at r' x = Some y" "line f < line y"
        show "depth (info node) \<le> depth y"
        proof (cases "x = np")
          case True
          with y new show ?thesis by simp
        next
          case False
          with y new have yy: "info_at r x = Some y" by simp
          with ftop(2) tt have "line y \<le> line top" by simp
          with deep yy y(2) show ?thesis unfolding d_def by blast
        qed
      qed
      ultimately show ?thesis using f(2) unfolding d_def by (cases ps) auto
    qed
    have 2: "info_at r' [] = Some (info root_node)" using old r0 by simp
    have 3: "\<exists>g. info_at r' (hd (np # p # ps)) = Some g \<and>
          (\<forall>x y. info_at r' x = Some y \<longrightarrow> line y \<le> line g)"
    proof -
      have "\<forall>x y. info_at r' x = Some y \<longrightarrow> line y \<le> line (info node)"
      proof (intro allI impI)
        fix x y assume "info_at r' x = Some y"
        then show "line y \<le> line (info node)"
          using new [of x] bound [of x y] node(2) by (cases "x = np") simp_all
      qed
      then show ?thesis using new by simp
    qed
    have 4: "\<forall>x y. info_at r' x = Some y \<longrightarrow> x \<noteq> [] \<longrightarrow>
            (\<exists>i < length (ls @ [raw]). trim ((ls @ [raw]) ! i) \<noteq> [] \<and>
                 y = info (make_node i ((ls @ [raw]) ! i)))"
    proof (intro allI impI)
      fix x y assume y: "info_at r' x = Some y" "x \<noteq> []"
      show "\<exists>i < length (ls @ [raw]). trim ((ls @ [raw]) ! i) \<noteq> [] \<and>
                 y = info (make_node i ((ls @ [raw]) ! i))"
      proof (cases "x = np")
        case True
        with y new have "y = info node" by simp
        then have "length ls < length (ls @ [raw]) \<and> trim ((ls @ [raw]) ! length ls) \<noteq> [] \<and>
           y = info (make_node (length ls) ((ls @ [raw]) ! length ls))"
          using nonblank by (simp add: node_def)
        then show ?thesis by blast
      next
        case False
        with y new have "info_at r x = Some y" by simp
        with inv4 y(2) obtain i where "i < length ls" "trim (ls ! i) \<noteq> []"
          "y = info (make_node i (ls ! i))" by blast
        then have "i < length (ls @ [raw]) \<and> trim ((ls @ [raw]) ! i) \<noteq> [] \<and>
           y = info (make_node i ((ls @ [raw]) ! i))" by (simp add: nth_append)
        then show ?thesis by blast
      qed
    qed
    have 5: "\<forall>i < length (ls @ [raw]). trim ((ls @ [raw]) ! i) \<noteq> [] \<longrightarrow>
            (\<exists>x. x \<noteq> [] \<and> info_at r' x = Some (info (make_node i ((ls @ [raw]) ! i))))"
    proof (intro allI impI)
      fix i assume i: "i < length (ls @ [raw])" "trim ((ls @ [raw]) ! i) \<noteq> []"
      show "\<exists>x. x \<noteq> [] \<and> info_at r' x = Some (info (make_node i ((ls @ [raw]) ! i)))"
      proof (cases "i = length ls")
        case True
        then have "np \<noteq> [] \<and> info_at r' np = Some (info (make_node i ((ls @ [raw]) ! i)))"
          using new by (simp add: np_def node_def)
        then show ?thesis by blast
      next
        case False
        with i have il: "i < length ls" "trim (ls ! i) \<noteq> []" by (simp_all add: nth_append)
        with inv5 obtain x where "x \<noteq> []" "info_at r x = Some (info (make_node i (ls ! i)))"
          by blast
        with il have "x \<noteq> [] \<and> info_at r' x = Some (info (make_node i ((ls @ [raw]) ! i)))"
          using old by (simp add: nth_append)
        then show ?thesis by blast
      qed
    qed
    have 6: "\<forall>x j y g. info_at r' (x @ [j]) = Some y \<longrightarrow> info_at r' x = Some g \<longrightarrow> depth g < depth y"
    proof (intro allI impI)
      fix x j y g assume y: "info_at r' (x @ [j]) = Some y" and g: "info_at r' x = Some g"
      show "depth g < depth y"
      proof (cases "x @ [j] = np")
        case True
        then have "x = p" by (simp add: np_def)
        with g old f(1) have "g = f" by simp
        moreover from True y new have "y = info node" by simp
        ultimately show ?thesis using f(2) by (simp add: d_def)
      next
        case False
        with y new have yy: "info_at r (x @ [j]) = Some y" by simp
        from info_at_prefix [OF yy] fresh have "x \<noteq> np" by auto
        with g new have "info_at r x = Some g" by simp
        with inv6 yy show ?thesis by blast
      qed
    qed
    show ?thesis unfolding state_ok_def st'_def using 1 2 3 4 5 6 by simp
  qed
  show ?thesis
    using pop suf parent(1) f(2) [folded parent(2)] recent pl ok'
    unfolding st'_def r'_def np_def d_def node_def r_def
    by blast
qed


lemma parse_line_blank:
  assumes "trim raw = []"
  shows "parse_line k raw st = Inr st" and "state_ok ls st \<Longrightarrow> state_ok (ls @ [raw]) st"
proof -
  show "parse_line k raw st = Inr st" using assms by (simp add: parse_line_def)
  assume ok: "state_ok ls st"
  have 4: "\<forall>x y. info_at (root st) x = Some y \<longrightarrow> x \<noteq> [] \<longrightarrow>
            (\<exists>i < length (ls @ [raw]). trim ((ls @ [raw]) ! i) \<noteq> [] \<and>
                 y = info (make_node i ((ls @ [raw]) ! i)))"
  proof (intro allI impI)
    fix x y assume "info_at (root st) x = Some y" "x \<noteq> []"
    with ok obtain i where "i < length ls" "trim (ls ! i) \<noteq> []" "y = info (make_node i (ls ! i))"
      unfolding state_ok_def by blast
    then have "i < length (ls @ [raw]) \<and> trim ((ls @ [raw]) ! i) \<noteq> [] \<and>
                 y = info (make_node i ((ls @ [raw]) ! i))" by (simp add: nth_append)
    then show "\<exists>i < length (ls @ [raw]). trim ((ls @ [raw]) ! i) \<noteq> [] \<and>
                 y = info (make_node i ((ls @ [raw]) ! i))" by blast
  qed
  have 5: "\<forall>i < length (ls @ [raw]). trim ((ls @ [raw]) ! i) \<noteq> [] \<longrightarrow>
            (\<exists>x. x \<noteq> [] \<and> info_at (root st) x = Some (info (make_node i ((ls @ [raw]) ! i))))"
  proof (intro allI impI)
    fix i assume i: "i < length (ls @ [raw])" "trim ((ls @ [raw]) ! i) \<noteq> []"
    have "i \<noteq> length ls" using i(2) assms by auto
    with i have il: "i < length ls" "trim (ls ! i) \<noteq> []" by (simp_all add: nth_append)
    with ok obtain x where "x \<noteq> []" "info_at (root st) x = Some (info (make_node i (ls ! i)))"
      unfolding state_ok_def by blast
    with il have "x \<noteq> [] \<and> info_at (root st) x = Some (info (make_node i ((ls @ [raw]) ! i)))"
      by (simp add: nth_append)
    then show "\<exists>x. x \<noteq> [] \<and> info_at (root st) x = Some (info (make_node i ((ls @ [raw]) ! i)))"
      by blast
  qed
  from ok have "stack_ok (root st) (stack st)" "info_at (root st) [] = Some (info root_node)"
    "\<exists>f. info_at (root st) (hd (stack st)) = Some f \<and>
          (\<forall>x y. info_at (root st) x = Some y \<longrightarrow> line y \<le> line f)"
    "\<forall>x j y g. info_at (root st) (x @ [j]) = Some y \<longrightarrow> info_at (root st) x = Some g \<longrightarrow>
            depth g < depth y"
    unfolding state_ok_def by blast+
  with 4 5 show "state_ok (ls @ [raw]) st" unfolding state_ok_def by blast
qed

lemma info_at_root_node: "info_at root_node x = (if x = [] then Some (info root_node) else None)"
  by (cases x) (simp_all add: info_at_def root_node_def)

lemma state_ok_initial: "state_ok [] initial_state"
  unfolding state_ok_def initial_state_def
  by (simp add: info_at_root_node)

lemma parse_lines_append:
  "parse_lines (xs @ ys) st = (case parse_lines xs st of Inl e \<Rightarrow> Inl e | Inr st' \<Rightarrow> parse_lines ys st')"
  by (induction xs st rule: parse_lines.induct) (simp_all split: sum.splits)

lemma enumerate_snoc: "enumerate 0 (ls @ [raw]) = enumerate 0 ls @ [(length ls, raw)]"
  by (simp add: enumerate_append_eq)

lemma parse_lines_snoc:
  "parse_lines (enumerate 0 (ls @ [raw])) st0 =
     (case parse_lines (enumerate 0 ls) st0 of Inl e \<Rightarrow> Inl e | Inr st \<Rightarrow> parse_line (length ls) raw st)"
  by (simp add: enumerate_snoc parse_lines_append split: sum.splits)

lemma parse_lines_ok: "\<exists>st. parse_lines (enumerate 0 ls) initial_state = Inr st \<and> state_ok ls st"
proof (induction ls rule: rev_induct)
  case Nil
  then show ?case by (simp add: state_ok_initial)
next
  case (snoc raw ls)
  then obtain st where st: "parse_lines (enumerate 0 ls) initial_state = Inr st" "state_ok ls st"
    by blast
  show ?case
  proof (cases "trim raw = []")
    case True
    with st parse_line_blank [OF True] show ?thesis by (simp add: parse_lines_snoc)
  next
    case False
    from parse_line_step [OF st(2) False] obtain st' where
      "parse_line (length ls) raw st = Inr st'" "state_ok (ls @ [raw]) st'" by blast
    with st show ?thesis by (simp add: parse_lines_snoc)
  qed
qed

section \<open>Where a node is attached (C3)\<close>

definition at_least_as_deep :: "RawNode \<Rightarrow> int \<Rightarrow> nat list \<Rightarrow> bool" where
  "at_least_as_deep r d q = (case node_at r q of None \<Rightarrow> False | Some n \<Rightarrow> d \<le> depth (info n))"

lemma pop_stack_dropWhile:
  "pop_stack r d s = Inr s' \<Longrightarrow> s' = dropWhile (at_least_as_deep r d) s"
  by (induction r d s rule: pop_stack.induct)
     (auto simp: at_least_as_deep_def split: option.splits if_splits)

lemma state_ok_reached:
  assumes "parse_lines (enumerate 0 ls) initial_state = Inr st"
  shows "state_ok ls st"
  using parse_lines_ok [of ls] assms by auto

text \<open>
  Claim C3.  Let \<open>st\<close> be the state after the lines \<open>ls\<close>, and \<open>raw\<close> the next line.  A blank
  line leaves the state as it is: no node, the same stack.  Otherwise the loop pops the
  stack while its top is at least as deep as the depth \<open>D\<close> of the line, and never runs it
  empty; the new top \<open>parent\<close> is less deep than \<open>D\<close> and is the most recent such node: every
  node of the tree that is less deep than \<open>D\<close> comes from a line no later than the line of
  \<open>parent\<close> (the root, of depth \<open>-1\<close> and line \<open>-1\<close>, when no line gave one).  The node of
  the line becomes the last child of \<open>parent\<close>, whatever the difference of the depths, all
  other nodes stay as they are, and the node is pushed on the popped stack.
\<close>

theorem node_attached_below_nearest_shallower:
  assumes "parse_lines (enumerate 0 ls) initial_state = Inr st"
  shows "(trim raw = [] \<longrightarrow> parse_line (length ls) raw st = Inr st) \<and>
         (trim raw \<noteq> [] \<longrightarrow>
            (\<exists>p ps parent st'.
               parse_line (length ls) raw st = Inr st' \<and>
               p # ps = dropWhile (at_least_as_deep (root st) (int (fst (getDepth raw)))) (stack st) \<and>
               node_at (root st) p = Some parent \<and>
               depth (info parent) < int (fst (getDepth raw)) \<and>
               (\<forall>x y. info_at (root st) x = Some y \<longrightarrow> depth y < int (fst (getDepth raw)) \<longrightarrow>
                      line y \<le> line (info parent)) \<and>
               node_at (root st') p =
                 Some (RawNode (info parent) (children parent @ [make_node (length ls) raw])) \<and>
               (\<forall>x. x \<noteq> p @ [length (children parent)] \<longrightarrow>
                    info_at (root st') x = info_at (root st) x) \<and>
               stack st' = (p @ [length (children parent)]) # p # ps))"
proof (intro conjI impI)
  assume "trim raw = []"
  then show "parse_line (length ls) raw st = Inr st" by (rule parse_line_blank)
next
  assume nonblank: "trim raw \<noteq> []"
  let ?node = "make_node (length ls) raw"
  have d: "depth (info ?node) = int (fst (getDepth raw))" by (simp add: make_node_simps)
  from parse_line_step [OF state_ok_reached [OF assms] nonblank]
  obtain p ps parent where
    pop: "pop_stack (root st) (depth (info ?node)) (stack st) = Inr (p # ps)"
    and parent: "node_at (root st) p = Some parent" "depth (info parent) < depth (info ?node)"
    and recent: "\<forall>x y. info_at (root st) x = Some y \<longrightarrow> depth y < depth (info ?node) \<longrightarrow>
                  line y \<le> line (info parent)"
    and pl: "parse_line (length ls) raw st =
             Inr \<lparr>root = push_child p ?node (root st),
                  stack = (p @ [length (children parent)]) # p # ps,
                  labelToId = set_label ?node (labelToId st)\<rparr>"
    by blast
  define st' where "st' = \<lparr>root = push_child p ?node (root st),
                  stack = (p @ [length (children parent)]) # p # ps,
                  labelToId = set_label ?node (labelToId st)\<rparr>"
  have 1: "p # ps = dropWhile (at_least_as_deep (root st) (int (fst (getDepth raw)))) (stack st)"
    using pop_stack_dropWhile [OF pop] d by simp
  obtain f cs where fc: "parent = RawNode f cs" by (cases parent)
  have 2: "node_at (root st') p = Some (RawNode (info parent) (children parent @ [?node]))"
    using node_at_push_child_same [of "root st" p f cs ?node] parent(1) fc
    by (simp add: st'_def)
  have 3: "\<forall>x. x \<noteq> p @ [length (children parent)] \<longrightarrow> info_at (root st') x = info_at (root st) x"
    using info_at_push_child [OF parent(1), of ?node] by (simp add: st'_def make_node_simps)
  have 4: "stack st' = (p @ [length (children parent)]) # p # ps" by (simp add: st'_def)
  from pl 1 parent recent 2 3 4 d
  show "\<exists>p ps parent st'.
               parse_line (length ls) raw st = Inr st' \<and>
               p # ps = dropWhile (at_least_as_deep (root st) (int (fst (getDepth raw)))) (stack st) \<and>
               node_at (root st) p = Some parent \<and>
               depth (info parent) < int (fst (getDepth raw)) \<and>
               (\<forall>x y. info_at (root st) x = Some y \<longrightarrow> depth y < int (fst (getDepth raw)) \<longrightarrow>
                      line y \<le> line (info parent)) \<and>
               node_at (root st') p =
                 Some (RawNode (info parent) (children parent @ [make_node (length ls) raw])) \<and>
               (\<forall>x. x \<noteq> p @ [length (children parent)] \<longrightarrow>
                    info_at (root st') x = info_at (root st) x) \<and>
               stack st' = (p @ [length (children parent)]) # p # ps"
    unfolding st'_def [symmetric] by (intro exI [of _ p] exI [of _ ps] exI [of _ parent] exI [of _ st']) simp
qed


theorem node_attached_below_nearest_shallower_witness:
  "\<exists>st st'.
     parse_lines (enumerate 0 [''A'', ''  B'']) initial_state = Inr st \<and>
     stack st = [[0, 0], [0], []] \<and>
     parse_line 2 ''  '' st = Inr st \<and>
     trim ''      D'' \<noteq> [] \<and>
     parse_line 2 ''      D'' st = Inr st' \<and>
     stack st' = [[0, 0, 0], [0, 0], [0], []] \<and>
     map_option (\<lambda>n. line (info n)) (node_at (root st) [0, 0]) = Some 1 \<and>
     map_option (\<lambda>n. map (\<lambda>c. line (info c)) (children n)) (node_at (root st') [0, 0]) = Some [2]"
proof -
  let ?ls = "[''A'', ''  B'']"
  let ?raw = "''      D''"
  from parse_lines_ok [of ?ls] obtain st where
    st: "parse_lines (enumerate 0 ?ls) initial_state = Inr st" by blast
  have ev: "case parse_lines (enumerate 0 ?ls) initial_state of
          Inl e \<Rightarrow> False
        | Inr st \<Rightarrow> stack st = [[0, 0], [0], []] \<and>
            dropWhile (at_least_as_deep (root st) 3) (stack st) = [[0, 0], [0], []] \<and>
            map_option (\<lambda>n. (line (info n), length (children n))) (node_at (root st) [0, 0]) = Some (1, 0)"
    by code_simp
  have cc: "stack st = [[0, 0], [0], []] \<and>
    dropWhile (at_least_as_deep (root st) 3) (stack st) = [[0, 0], [0], []] \<and>
    map_option (\<lambda>n. (line (info n), length (children n))) (node_at (root st) [0, 0]) = Some (1, 0)"
    using ev [unfolded st sum.case] .
  note c = cc [THEN conjunct1] cc [THEN conjunct2, THEN conjunct1] cc [THEN conjunct2, THEN conjunct2]
  have b: "trim ''  '' = []" by code_simp
  have nb: "trim ?raw \<noteq> []" by code_simp
  have d: "int (fst (getDepth ?raw)) = 3" by code_simp
  from node_attached_below_nearest_shallower [OF st, of "''  ''"] b
  have blank: "parse_line (length ?ls) ''  '' st = Inr st" by simp
  from node_attached_below_nearest_shallower [OF st, of ?raw] nb d
  obtain p ps parent st' where
    pl: "parse_line (length ?ls) ?raw st = Inr st'"
    and pp: "p # ps = dropWhile (at_least_as_deep (root st) 3) (stack st)"
    and parent: "node_at (root st) p = Some parent"
    and at: "node_at (root st') p = Some (RawNode (info parent) (children parent @ [make_node (length ?ls) ?raw]))"
    and stk: "stack st' = (p @ [length (children parent)]) # p # ps"
    by auto
  from pp c(2) have p: "p = [0, 0]" "ps = [[0], []]" by simp_all
  from c(3) parent p have par: "line (info parent) = 1" "children parent = []" by auto
  have two: "length ?ls = 2" by simp
  have "parse_line 2 ''  '' st = Inr st" using blank unfolding two .
  moreover have "parse_line 2 ?raw st = Inr st'" using pl unfolding two .
  moreover have "stack st' = [[0, 0, 0], [0, 0], [0], []]" using stk p par by simp
  moreover have "map_option (\<lambda>n. line (info n)) (node_at (root st) [0, 0]) = Some 1"
    using parent p par by simp
  moreover have "map_option (\<lambda>n. map (\<lambda>c. line (info c)) (children n)) (node_at (root st') [0, 0]) = Some [2]"
    using at p par unfolding two by (simp add: make_node_simps)
  ultimately show ?thesis using st c(1) nb
    by - (intro exI [of _ st] exI [of _ st'] conjI; assumption)
qed

section \<open>The result of a parse (C4)\<close>

text \<open>
  \<open>own_or n inherited\<close> is \<^verbatim>\<open>node.color ?? inherited\<close>.  \<open>inherited_at inh r x\<close> is the
  argument \<^verbatim>\<open>inherited\<close> with which \<^verbatim>\<open>applyColor\<close> reaches the node at \<open>x\<close>.
  \<open>nearest_declared r x\<close> looks at the nodes on the way from the root to \<open>x\<close> only: it is the
  declared colour of the node at \<open>x\<close> or else of its nearest ancestor that declares one.
  \<open>inherits inh n\<close> says that in the tree \<open>n\<close>, below a parent with the effective colour
  \<open>inh\<close>, every effective colour is the declared colour if there is one and the effective
  colour of the parent otherwise.
\<close>

definition input_lines :: "string \<Rightarrow> string list" where
  "input_lines input = split_lines (normalize_newlines input)"

definition own_or :: "RawNode \<Rightarrow> color_value option \<Rightarrow> color_value option" where
  "own_or n inherited = (case color (info n) of None \<Rightarrow> inherited | Some c \<Rightarrow> Some c)"

fun inherited_at :: "color_value option \<Rightarrow> RawNode \<Rightarrow> nat list \<Rightarrow> color_value option" where
  "inherited_at inh n [] = inh"
| "inherited_at inh n (i # p) = inherited_at (own_or n inh) (children n ! i) p"

fun nearest_declared :: "RawNode \<Rightarrow> nat list \<Rightarrow> color_value option" where
  "nearest_declared n [] = color (info n)"
| "nearest_declared n (i # p) =
     (case nearest_declared (children n ! i) p of
        None \<Rightarrow> color (info n)
      | Some c \<Rightarrow> Some c)"

fun inherits :: "color_value option \<Rightarrow> RawNode \<Rightarrow> bool" where
  "inherits inh (RawNode f cs) \<longleftrightarrow>
     effectiveColor f = (case color f of None \<Rightarrow> inh | Some c \<Rightarrow> Some c) \<and>
     (\<forall>c \<in> set cs. inherits (effectiveColor f) c)"

lemma applyColor_sel:
  "info (applyColor n inh) = (info n)\<lparr>effectiveColor := own_or n inh\<rparr>"
  "children (applyColor n inh) = map (\<lambda>c. applyColor c (own_or n inh)) (children n)"
  by (cases n; simp add: own_or_def Let_def)+

lemma node_at_applyColor:
  "node_at (applyColor r inh) x =
     (case node_at r x of None \<Rightarrow> None | Some n \<Rightarrow> Some (applyColor n (inherited_at inh r x)))"
proof (induction r x arbitrary: inh rule: node_at.induct)
  case (1 n)
  then show ?case by simp
next
  case (2 n i p)
  show ?case
  proof (cases "i < length (children n)")
    case True
    with "2.IH" [OF True, of "own_or n inh"] show ?thesis
      by (simp add: applyColor_sel split: option.splits)
  next
    case False
    then show ?thesis by (simp add: applyColor_sel)
  qed
qed

lemma inherited_at_nearest:
  "node_at r x = Some n \<Longrightarrow>
     own_or n (inherited_at inh r x) = (case nearest_declared r x of None \<Rightarrow> inh | Some c \<Rightarrow> Some c)"
proof (induction r x arbitrary: inh rule: node_at.induct)
  case (1 r)
  then show ?case by (simp add: own_or_def)
next
  case (2 r i p)
  from "2.prems" have i: "i < length (children r)" and at: "node_at (children r ! i) p = Some n"
    by (simp_all split: if_splits)
  from "2.IH" [OF i at, of "own_or r inh"] show ?case
    by (simp add: own_or_def split: option.splits)
qed

lemma inherits_applyColor: "inherits inh (applyColor n inh)"
proof (induction n inh rule: applyColor.induct)
  case (1 f cs inherited)
  define cur where "cur = (case color f of None \<Rightarrow> inherited | Some c \<Rightarrow> Some c)"
  have "\<And>c. c \<in> set cs \<Longrightarrow> inherits cur (applyColor c cur)"
    using 1 unfolding cur_def by simp
  then show ?case by (simp add: Let_def cur_def [symmetric])
qed

lemma nearest_declared_applyColor:
  "node_at r x = Some n \<Longrightarrow> nearest_declared (applyColor r inh) x = nearest_declared r x"
proof (induction r x arbitrary: inh rule: node_at.induct)
  case (1 r)
  then show ?case by (simp add: applyColor_sel)
next
  case (2 r i p)
  from "2.prems" have i: "i < length (children r)" and at: "node_at (children r ! i) p = Some n"
    by (simp_all split: if_splits)
  from "2.IH" [OF i at] i show ?case by (simp add: applyColor_sel split: option.splits)
qed


lemma parseText_eq:
  "\<exists>st. parse_lines (enumerate 0 (input_lines input)) initial_state = Inr st \<and>
        state_ok (input_lines input) st \<and>
        parseText input = Inr (applyColor (root st) None, labelToId st)"
proof -
  from parse_lines_ok [of "input_lines input"] obtain st where
    st: "parse_lines (enumerate 0 (input_lines input)) initial_state = Inr st"
      "state_ok (input_lines input) st" by blast
  then have "parseText input = Inr (applyColor (root st) None, labelToId st)"
    by (simp add: parseText_def input_lines_def Let_def)
  with st show ?thesis by blast
qed

lemma parseText_returns: "\<exists>r m. parseText input = Inr (r, m)"
  using parseText_eq [of input] by blast

lemma parseText_root:
  "\<exists>r m. parseText input = Inr (r, m) \<and>
     id' (info r) = ''root'' \<and> depth (info r) = - 1 \<and> line (info r) = - 1 \<and>
     (\<forall>x n. node_at r x = Some n \<longrightarrow> x \<noteq> [] \<longrightarrow>
            0 \<le> depth (info n) \<and> 0 \<le> line (info n) \<and> id' (info n) \<noteq> ''root'') \<and>
     (\<forall>i < length (input_lines input).
        trim (input_lines input ! i) \<noteq> [] \<longrightarrow> fst (getDepth (input_lines input ! i)) = 0 \<longrightarrow>
        (\<exists>c \<in> set (children r).
           id' (info c) = ''n_'' @ show_nat i \<and> line (info c) = int i \<and> depth (info c) = 0))"
proof -
  let ?ls = "input_lines input"
  from parseText_eq [of input] obtain st where
    st: "parse_lines (enumerate 0 ?ls) initial_state = Inr st" and ok: "state_ok ?ls st"
    and pt: "parseText input = Inr (applyColor (root st) None, labelToId st)" by blast
  define r where "r = applyColor (root st) None"
  from ok have r0: "info (root st) = info root_node"
    unfolding state_ok_def by (simp add: info_at_def)
  have root: "id' (info r) = ''root''" "depth (info r) = - 1" "line (info r) = - 1"
    unfolding r_def by (simp_all add: applyColor_sel r0 root_node_simps)
  have others: "\<forall>x n. node_at r x = Some n \<longrightarrow> x \<noteq> [] \<longrightarrow>
            0 \<le> depth (info n) \<and> 0 \<le> line (info n) \<and> id' (info n) \<noteq> ''root''"
  proof (intro allI impI)
    fix x n assume n: "node_at r x = Some n" and x: "x \<noteq> []"
    from n obtain n0 where n0: "node_at (root st) x = Some n0"
      and nn: "n = applyColor n0 (inherited_at None (root st) x)"
      unfolding r_def node_at_applyColor by (auto split: option.splits)
    from n0 have "info_at (root st) x = Some (info n0)" by (simp add: info_at_def)
    with ok x obtain i where "info n0 = info (make_node i (?ls ! i))"
      unfolding state_ok_def by blast
    with nn show "0 \<le> depth (info n) \<and> 0 \<le> line (info n) \<and> id' (info n) \<noteq> ''root''"
      by (simp add: applyColor_sel make_node_simps)
  qed
  have tops: "\<forall>i < length ?ls. trim (?ls ! i) \<noteq> [] \<longrightarrow> fst (getDepth (?ls ! i)) = 0 \<longrightarrow>
        (\<exists>c \<in> set (children r).
           id' (info c) = ''n_'' @ show_nat i \<and> line (info c) = int i \<and> depth (info c) = 0)"
  proof (intro allI impI)
    fix i assume i: "i < length ?ls" "trim (?ls ! i) \<noteq> []" "fst (getDepth (?ls ! i)) = 0"
    from ok i obtain x where x: "x \<noteq> []"
      "info_at (root st) x = Some (info (make_node i (?ls ! i)))"
      unfolding state_ok_def by blast
    from x(1) obtain y j where xy: "x = y @ [j]" by (metis rev_exhaust)
    from info_at_prefix [OF x(2) [unfolded xy]] obtain g where g: "info_at (root st) y = Some g"
      by blast
    from ok x(2) g have "depth g < depth (info (make_node i (?ls ! i)))"
      unfolding state_ok_def xy by blast
    with i(3) have neg: "depth g < 0" by (simp add: make_node_simps)
    have "y = []"
    proof (rule ccontr)
      assume "y \<noteq> []"
      with state_ok_line_bound [OF ok g] neg show False by simp
    qed
    with xy x(2) obtain n0 where n0: "node_at (root st) [j] = Some n0"
      "info n0 = info (make_node i (?ls ! i))" by (auto simp: info_at_def)
    from n0(1) have j: "j < length (children (root st))" "n0 = children (root st) ! j"
      by (simp_all split: if_splits)
    define c where "c = applyColor n0 (own_or (root st) None)"
    from j have "c \<in> set (children r)"
      unfolding r_def c_def applyColor_sel by (metis (no_types, lifting) length_map nth_map nth_mem)
    moreover have "id' (info c) = ''n_'' @ show_nat i \<and> line (info c) = int i \<and> depth (info c) = 0"
      unfolding c_def using n0(2) i(3) by (simp add: applyColor_sel make_node_simps)
    ultimately show "\<exists>c \<in> set (children r).
           id' (info c) = ''n_'' @ show_nat i \<and> line (info c) = int i \<and> depth (info c) = 0"
      by blast
  qed
  from pt root others tops show ?thesis unfolding r_def by blast
qed

text \<open>
  Claim C4.  The tree returned by a parse is the tree built by the line loop after one
  call of \<^verbatim>\<open>applyColor\<close> on its root.  In it the effective colour of every node is its
  declared colour if it has one, and otherwise the effective colour of its parent, which
  is absent for the root; so it is the declared colour of the nearest node that declares
  one among the node and its ancestors, and is absent when none does.  No colour of a
  descendant enters.
\<close>

theorem effectiveColor_inherited:
  assumes "parseText input = Inr (r, m)"
  shows "(\<exists>st. parse_lines (enumerate 0 (input_lines input)) initial_state = Inr st \<and>
              r = applyColor (root st) None) \<and>
         inherits None r \<and>
         (\<forall>x n. node_at r x = Some n \<longrightarrow> effectiveColor (info n) = nearest_declared r x)"
proof -
  from parseText_eq [of input] assms obtain st where
    st: "parse_lines (enumerate 0 (input_lines input)) initial_state = Inr st"
    and r: "r = applyColor (root st) None" by auto
  have "inherits None r" unfolding r by (rule inherits_applyColor)
  moreover have "\<forall>x n. node_at r x = Some n \<longrightarrow> effectiveColor (info n) = nearest_declared r x"
  proof (intro allI impI)
    fix x n assume n: "node_at r x = Some n"
    then obtain n0 where n0: "node_at (root st) x = Some n0"
      and nn: "n = applyColor n0 (inherited_at None (root st) x)"
      unfolding r node_at_applyColor by (auto split: option.splits)
    from nn have "effectiveColor (info n) = own_or n0 (inherited_at None (root st) x)"
      by (simp add: applyColor_sel)
    also have "\<dots> = nearest_declared (root st) x"
      using inherited_at_nearest [OF n0, of None] by (simp split: option.splits)
    also have "\<dots> = nearest_declared r x"
      unfolding r using nearest_declared_applyColor [OF n0] by simp
    finally show "effectiveColor (info n) = nearest_declared r x" .
  qed
  ultimately show ?thesis using st r by blast
qed

theorem effectiveColor_inherited_witness:
  "\<exists>r m parent child.
     parseText (''Parent '' @ BS # ''color{red}'' @ [LF] @ ''  Child'') = Inr (r, m) \<and>
     inherits None r \<and>
     node_at r [0] = Some parent \<and> node_at r [0, 0] = Some child \<and>
     color (info parent) = Some (ColorString ''#ef4444'') \<and>
     effectiveColor (info parent) = Some (ColorString ''#ef4444'') \<and>
     color (info child) = None \<and>
     effectiveColor (info child) = Some (ColorString ''#ef4444'')"
proof -
  let ?input = "''Parent '' @ BS # ''color{red}'' @ [LF] @ ''  Child''"
  from parseText_returns [of ?input] obtain r m where pt: "parseText ?input = Inr (r, m)" by blast
  have ev: "case parseText ?input of
          Inl e \<Rightarrow> False
        | Inr (r, m) \<Rightarrow>
            map_option (\<lambda>n. color (info n)) (node_at r [0]) = Some (Some (ColorString ''#ef4444'')) \<and>
            map_option (\<lambda>n. color (info n)) (node_at r [0, 0]) = Some None \<and>
            nearest_declared r [0] = Some (ColorString ''#ef4444'') \<and>
            nearest_declared r [0, 0] = Some (ColorString ''#ef4444'')"
    by code_simp
  have cc: "map_option (\<lambda>n. color (info n)) (node_at r [0]) = Some (Some (ColorString ''#ef4444'')) \<and>
            map_option (\<lambda>n. color (info n)) (node_at r [0, 0]) = Some None \<and>
            nearest_declared r [0] = Some (ColorString ''#ef4444'') \<and>
            nearest_declared r [0, 0] = Some (ColorString ''#ef4444'')"
    using ev [unfolded pt sum.case prod.case] .
  from cc obtain parent where parent: "node_at r [0] = Some parent"
    "color (info parent) = Some (ColorString ''#ef4444'')" by auto
  from cc obtain child where child: "node_at r [0, 0] = Some child" "color (info child) = None"
    by auto
  from effectiveColor_inherited [OF pt] have inh: "inherits None r"
    and near: "\<forall>x n. node_at r x = Some n \<longrightarrow> effectiveColor (info n) = nearest_declared r x"
    by blast+
  note n1 = cc [THEN conjunct2, THEN conjunct2, THEN conjunct1]
  note n2 = cc [THEN conjunct2, THEN conjunct2, THEN conjunct2]
  have "effectiveColor (info parent) = Some (ColorString ''#ef4444'')"
    using near [rule_format, OF parent(1)] unfolding n1 .
  moreover have "effectiveColor (info child) = Some (ColorString ''#ef4444'')"
    using near [rule_format, OF child(1)] unfolding n2 .
  ultimately show ?thesis using pt inh parent child
    by - (intro exI [of _ r] exI [of _ m] exI [of _ parent] exI [of _ child] conjI; assumption)
qed

section \<open>The label map\<close>

text \<open>
  \<open>declares ls i l\<close>: the line \<open>i\<close> of \<open>ls\<close> is not blank and its node has the label \<open>l\<close>, which
  is not empty.  After the lines \<open>ls\<close> the map sends a label to the identity of the node of
  the last line that declares it.
\<close>

definition declares :: "string list \<Rightarrow> nat \<Rightarrow> string \<Rightarrow> bool" where
  "declares ls i l \<longleftrightarrow>
     i < length ls \<and> trim (ls ! i) \<noteq> [] \<and> l \<noteq> [] \<and> label (info (make_node i (ls ! i))) = Some l"

lemma declares_snoc:
  "declares (ls @ [raw]) i l \<longleftrightarrow>
     declares ls i l \<or>
     (i = length ls \<and> trim raw \<noteq> [] \<and> l \<noteq> [] \<and> label (info (make_node i raw)) = Some l)"
  by (auto simp: declares_def nth_append less_Suc_eq)

lemma set_label_apply:
  "set_label node m l =
     (if label (info node) = Some l \<and> l \<noteq> [] then Some (id' (info node)) else m l)"
  by (auto simp: set_label_def split: option.splits)

lemma parse_line_labelToId:
  assumes "state_ok ls st" "parse_line (length ls) raw st = Inr st'"
  shows "labelToId st' l =
           (if trim raw \<noteq> [] \<and> l \<noteq> [] \<and> label (info (make_node (length ls) raw)) = Some l
            then Some (''n_'' @ show_nat (length ls)) else labelToId st l)"
proof (cases "trim raw = []")
  case True
  with assms(2) parse_line_blank(1) [OF True, of "length ls" st] show ?thesis by simp
next
  case False
  from parse_line_step [OF assms(1) False] assms(2)
  have "labelToId st' = set_label (make_node (length ls) raw) (labelToId st)" by auto
  with False show ?thesis by (simp add: set_label_apply make_node_simps)
qed

lemma labelToId_last_declaration:
  assumes "parse_lines (enumerate 0 ls) initial_state = Inr st"
  shows "labelToId st l = Some t \<longleftrightarrow>
           (\<exists>i. declares ls i l \<and> t = ''n_'' @ show_nat i \<and> (\<forall>j. i < j \<longrightarrow> \<not> declares ls j l))"
  using assms
proof (induction ls arbitrary: st rule: rev_induct)
  case Nil
  then have "st = initial_state" by simp
  then show ?case by (simp add: initial_state_def declares_def)
next
  case (snoc raw ls)
  from parse_lines_ok [of ls] obtain st0 where
    st0: "parse_lines (enumerate 0 ls) initial_state = Inr st0" "state_ok ls st0" by blast
  with snoc.prems have pl: "parse_line (length ls) raw st0 = Inr st"
    by (simp add: parse_lines_snoc)
  note IH = snoc.IH [OF st0(1)]
  note eq = parse_line_labelToId [OF st0(2) pl, of l]
  have bound: "\<And>j. declares ls j l \<Longrightarrow> j < length ls" by (simp add: declares_def)
  show ?case
  proof (cases "trim raw \<noteq> [] \<and> l \<noteq> [] \<and> label (info (make_node (length ls) raw)) = Some l")
    case True
    then have new: "declares (ls @ [raw]) (length ls) l" by (simp add: declares_snoc)
    have "(\<exists>i. declares (ls @ [raw]) i l \<and> t = ''n_'' @ show_nat i \<and>
               (\<forall>j. i < j \<longrightarrow> \<not> declares (ls @ [raw]) j l)) \<longleftrightarrow> t = ''n_'' @ show_nat (length ls)"
    proof
      assume "\<exists>i. declares (ls @ [raw]) i l \<and> t = ''n_'' @ show_nat i \<and>
               (\<forall>j. i < j \<longrightarrow> \<not> declares (ls @ [raw]) j l)"
      then obtain i where i: "declares (ls @ [raw]) i l" "t = ''n_'' @ show_nat i"
        "\<forall>j. i < j \<longrightarrow> \<not> declares (ls @ [raw]) j l" by blast
      from i(3) new have "\<not> i < length ls" by blast
      moreover from i(1) have "i < length (ls @ [raw])" by (simp add: declares_def)
      ultimately have "i = length ls" by simp
      with i(2) show "t = ''n_'' @ show_nat (length ls)" by simp
    next
      assume t: "t = ''n_'' @ show_nat (length ls)"
      have "\<forall>j. length ls < j \<longrightarrow> \<not> declares (ls @ [raw]) j l" by (simp add: declares_def)
      with new t show "\<exists>i. declares (ls @ [raw]) i l \<and> t = ''n_'' @ show_nat i \<and>
               (\<forall>j. i < j \<longrightarrow> \<not> declares (ls @ [raw]) j l)" by blast
    qed
    with eq True show ?thesis by auto
  next
    case False
    then have same: "\<And>i. declares (ls @ [raw]) i l \<longleftrightarrow> declares ls i l"
      by (auto simp: declares_snoc)
    from eq False have "labelToId st l = labelToId st0 l" by auto
    with IH same show ?thesis by simp
  qed
qed


section \<open>Cross links (C8)\<close>

text \<open>
  \<^verbatim>\<open>nodePos\<close> and \<^verbatim>\<open>crossLinks\<close> of the component.  Both walk the laid-out tree with
  \<^verbatim>\<open>treeRoot.each\<close> of the layout library, which is not part of the repository; the list
  \<open>ds\<close> stands for the nodes in the order in which \<^verbatim>\<open>each\<close> visits them.  An entry of
  \<^verbatim>\<open>nodePos\<close> is an object made at one visit; it is identified by the index of that visit,
  so \<^verbatim>\<open>from !== to\<close> compares two indices.  The coordinates, which come from the layout,
  are left out: a link is the pair of the two entries with the colour.

  \<open>resolved_links\<close> states the contract on identities: one pair for every node and every
  label in its references that the map knows and sends to another identity.
\<close>

definition nodePos :: "RawNode list \<Rightarrow> (string \<rightharpoonup> nat)" where
  "nodePos ds =
     fold (\<lambda>(k, d) mp. if id' (info d) \<noteq> [] then mp(id' (info d) \<mapsto> k) else mp)
       (enumerate 0 ds) Map.empty"

definition crossLinks ::
  "RawNode list \<Rightarrow> (string \<rightharpoonup> string) \<Rightarrow> (nat \<times> nat \<times> color_value option) list" where
  "crossLinks ds labelToId' =
     concat (map (\<lambda>d.
       let data = info d
       in if refs data \<noteq> [] then
            concat (map (\<lambda>r.
              let targetId = labelToId' r;
                  from' = nodePos ds (id' data);
                  to' = (case targetId of
                           None \<Rightarrow> None
                         | Some t \<Rightarrow> if t \<noteq> [] then nodePos ds t else None)
              in case from' of
                   None \<Rightarrow> []
                 | Some f \<Rightarrow>
                     (case to' of
                        None \<Rightarrow> []
                      | Some t \<Rightarrow> if f \<noteq> t then [(f, t, effectiveColor data)] else []))
              (refs data))
          else []) ds)"

definition resolved_links :: "RawNode list \<Rightarrow> (string \<rightharpoonup> string) \<Rightarrow> (string \<times> string) list" where
  "resolved_links ds m =
     concat (map (\<lambda>d.
       concat (map (\<lambda>l.
         case m l of
           None \<Rightarrow> []
         | Some t \<Rightarrow> if t \<noteq> id' (info d) then [(id' (info d), t)] else [])
         (refs (info d)))) ds)"

lemma nodePos_snoc:
  "nodePos (ds @ [d]) =
     (if id' (info d) \<noteq> [] then (nodePos ds)(id' (info d) \<mapsto> length ds) else nodePos ds)"
  by (simp add: nodePos_def enumerate_append_eq)

lemma nodePos_Some:
  "nodePos ds i = Some k \<Longrightarrow> k < length ds \<and> id' (info (ds ! k)) = i \<and> i \<noteq> []"
proof (induction ds arbitrary: k rule: rev_induct)
  case Nil
  then show ?case by (simp add: nodePos_def)
next
  case (snoc d ds)
  show ?case
  proof (cases "id' (info d) \<noteq> [] \<and> i = id' (info d)")
    case True
    with snoc.prems have "k = length ds" by (simp add: nodePos_snoc)
    with True show ?thesis by simp
  next
    case False
    with snoc.prems have "nodePos ds i = Some k" by (auto simp: nodePos_snoc split: if_splits)
    from snoc.IH [OF this] show ?thesis by (simp add: nth_append)
  qed
qed

lemma nodePos_defined:
  "d \<in> set ds \<Longrightarrow> id' (info d) \<noteq> [] \<Longrightarrow> \<exists>k. nodePos ds (id' (info d)) = Some k"
proof (induction ds rule: rev_induct)
  case Nil
  then show ?case by simp
next
  case (snoc e ds)
  show ?case
  proof (cases "id' (info e) = id' (info d)")
    case True
    with snoc.prems(2) show ?thesis by (simp add: nodePos_snoc)
  next
    case False
    with snoc.prems have "d \<in> set ds" by auto
    from snoc.IH [OF this snoc.prems(2)] False show ?thesis by (auto simp: nodePos_snoc)
  qed
qed

lemma crossLinks_resolved:
  assumes ids: "\<forall>d \<in> set ds. id' (info d) \<noteq> []"
    and targets: "\<forall>l t. m l = Some t \<longrightarrow> (\<exists>d \<in> set ds. id' (info d) = t)"
  shows "map (\<lambda>(f, t, c). (id' (info (ds ! f)), id' (info (ds ! t)))) (crossLinks ds m) =
           resolved_links ds m"
proof -
  have one: "map (\<lambda>(f, t, c). (id' (info (ds ! f)), id' (info (ds ! t))))
               (case nodePos ds (id' (info d)) of
                  None \<Rightarrow> []
                | Some f \<Rightarrow>
                    (case (case m l of
                             None \<Rightarrow> None
                           | Some t \<Rightarrow> if t \<noteq> [] then nodePos ds t else None) of
                       None \<Rightarrow> []
                     | Some t \<Rightarrow> if f \<noteq> t then [(f, t, effectiveColor (info d))] else [])) =
             (case m l of
                None \<Rightarrow> []
              | Some t \<Rightarrow> if t \<noteq> id' (info d) then [(id' (info d), t)] else [])"
    if d: "d \<in> set ds" for d l
  proof -
    from d ids have idd: "id' (info d) \<noteq> []" by blast
    from nodePos_defined [OF d idd] obtain kf where kf: "nodePos ds (id' (info d)) = Some kf"
      by blast
    from nodePos_Some [OF kf] have kf': "id' (info (ds ! kf)) = id' (info d)" by simp
    show ?thesis
    proof (cases "m l")
      case None
      then show ?thesis by (simp add: kf)
    next
      case (Some t)
      with targets obtain e where e: "e \<in> set ds" "id' (info e) = t" by blast
      with ids have tne: "t \<noteq> []" by auto
      from nodePos_defined [OF e(1)] e(2) tne obtain kt where kt: "nodePos ds t = Some kt"
        by auto
      from nodePos_Some [OF kt] have kt': "id' (info (ds ! kt)) = t" by simp
      have "kf \<noteq> kt \<longleftrightarrow> t \<noteq> id' (info d)"
      proof
        assume "kf \<noteq> kt"
        show "t \<noteq> id' (info d)"
        proof
          assume "t = id' (info d)"
          with kf kt have "kf = kt" by simp
          with \<open>kf \<noteq> kt\<close> show False by simp
        qed
      next
        assume "t \<noteq> id' (info d)"
        with kf' kt' show "kf \<noteq> kt" by auto
      qed
      with Some kf kt kf' kt' tne show ?thesis by simp
    qed
  qed
  have per_node: "map (\<lambda>(f, t, c). (id' (info (ds ! f)), id' (info (ds ! t))))
               (if refs (info d) \<noteq> [] then
                  concat (map (\<lambda>r.
                    case nodePos ds (id' (info d)) of
                      None \<Rightarrow> []
                    | Some f \<Rightarrow>
                        (case (case m r of
                                 None \<Rightarrow> None
                               | Some t \<Rightarrow> if t \<noteq> [] then nodePos ds t else None) of
                           None \<Rightarrow> []
                         | Some t \<Rightarrow> if f \<noteq> t then [(f, t, effectiveColor (info d))] else []))
                    (refs (info d)))
                else []) =
             concat (map (\<lambda>l.
               case m l of
                 None \<Rightarrow> []
               | Some t \<Rightarrow> if t \<noteq> id' (info d) then [(id' (info d), t)] else [])
               (refs (info d)))"
    if d: "d \<in> set ds" for d
  proof (cases "refs (info d) = []")
    case True
    then show ?thesis by simp
  next
    case False
    then show ?thesis
      unfolding if_P [OF False] map_concat map_map o_def
      by (simp only: one [OF d])
  qed
  show ?thesis
    unfolding crossLinks_def resolved_links_def Let_def map_concat map_map o_def
    by (rule arg_cong [where f = concat], rule map_cong [OF refl]) (rule per_node)
qed


fun preorder :: "RawNode \<Rightarrow> RawNode list" where
  "preorder (RawNode f cs) = RawNode f cs # concat (map preorder cs)"

lemma preorder_self: "n \<in> set (preorder n)"
  by (cases n) simp

lemma preorder_node_at: "node_at r x = Some n \<Longrightarrow> n \<in> set (preorder r)"
proof (induction r x rule: node_at.induct)
  case (1 r)
  then show ?case by (simp add: preorder_self)
next
  case (2 r i p)
  then have i: "i < length (children r)" and at: "node_at (children r ! i) p = Some n"
    by (simp_all split: if_splits)
  from "2.IH" [OF i at] have "n \<in> set (preorder (children r ! i))" .
  moreover from i have "children r ! i \<in> set (children r)" by simp
  ultimately show ?case by (cases r) auto
qed

lemma node_at_preorder: "n \<in> set (preorder r) \<Longrightarrow> \<exists>x. node_at r x = Some n"
proof (induction r rule: preorder.induct)
  case (1 f cs)
  show ?case
  proof (cases "n = RawNode f cs")
    case True
    then have "node_at (RawNode f cs) [] = Some n" by simp
    then show ?thesis by blast
  next
    case False
    with "1.prems" obtain c where c: "c \<in> set cs" "n \<in> set (preorder c)" by auto
    from "1.IH" [OF c] obtain x where x: "node_at c x = Some n" by blast
    from c(1) obtain i where i: "i < length cs" "cs ! i = c" by (auto simp: in_set_conv_nth)
    with x have "node_at (RawNode f cs) (i # x) = Some n" by simp
    then show ?thesis by blast
  qed
qed

lemma preorder_iff: "n \<in> set (preorder r) \<longleftrightarrow> (\<exists>x. node_at r x = Some n)"
  using preorder_node_at node_at_preorder by blast

lemma resolved_links_iff:
  "(a, b) \<in> set (resolved_links ds m) \<longleftrightarrow>
     (\<exists>d \<in> set ds. \<exists>l \<in> set (refs (info d)). a = id' (info d) \<and> m l = Some b \<and> b \<noteq> a)"
proof
  assume "(a, b) \<in> set (resolved_links ds m)"
  then obtain d l where dl: "d \<in> set ds" "l \<in> set (refs (info d))"
    "(a, b) \<in> set (case m l of None \<Rightarrow> []
        | Some t \<Rightarrow> if t \<noteq> id' (info d) then [(id' (info d), t)] else [])"
    unfolding resolved_links_def by auto
  from dl(3) have "a = id' (info d) \<and> m l = Some b \<and> b \<noteq> a"
    by (cases "m l") (auto split: if_splits)
  with dl(1,2) show "\<exists>d \<in> set ds. \<exists>l \<in> set (refs (info d)). a = id' (info d) \<and> m l = Some b \<and> b \<noteq> a"
    by blast
next
  assume "\<exists>d \<in> set ds. \<exists>l \<in> set (refs (info d)). a = id' (info d) \<and> m l = Some b \<and> b \<noteq> a"
  then obtain d l where dl: "d \<in> set ds" "l \<in> set (refs (info d))" "a = id' (info d)"
    "m l = Some b" "b \<noteq> a" by blast
  then have "(a, b) \<in> set (case m l of None \<Rightarrow> []
        | Some t \<Rightarrow> if t \<noteq> id' (info d) then [(id' (info d), t)] else [])" by simp
  with dl(1,2) show "(a, b) \<in> set (resolved_links ds m)"
    unfolding resolved_links_def by auto
qed

lemma parse_nodes:
  assumes "parseText input = Inr (r, m)"
  shows "\<exists>st. parse_lines (enumerate 0 (input_lines input)) initial_state = Inr st \<and>
              state_ok (input_lines input) st \<and> r = applyColor (root st) None \<and> m = labelToId st"
  using parseText_eq [of input] assms by auto

text \<open>
  Claim C8.  For the tree and the label map of a parse, and a visit \<open>ds\<close> of exactly the
  nodes of the tree, the links of \<^verbatim>\<open>crossLinks\<close>, read as pairs of identities, are the
  resolved links: there is a link from \<open>a\<close> to \<open>b\<close> exactly when some node with the identity
  \<open>a\<close> lists a label in its references that the map sends to \<open>b\<close>, and \<open>b\<close> is not \<open>a\<close>.  A
  label that the map does not know and a label of the node itself give no link; nothing
  is thrown.
\<close>

theorem crossLinks_of_parse:
  assumes "parseText input = Inr (r, m)"
    and "\<forall>n. n \<in> set ds \<longleftrightarrow> (\<exists>x. node_at r x = Some n)"
  shows "map (\<lambda>(f, t, c). (id' (info (ds ! f)), id' (info (ds ! t)))) (crossLinks ds m) =
           resolved_links ds m \<and>
         (\<forall>a b. (a, b) \<in> set (resolved_links ds m) \<longleftrightarrow>
            (\<exists>d \<in> set ds. \<exists>l \<in> set (refs (info d)). a = id' (info d) \<and> m l = Some b \<and> b \<noteq> a))"
proof -
  let ?ls = "input_lines input"
  from parse_nodes [OF assms(1)] obtain st where
    st: "parse_lines (enumerate 0 ?ls) initial_state = Inr st" and ok: "state_ok ?ls st"
    and r: "r = applyColor (root st) None" and m: "m = labelToId st" by blast
  have at: "\<And>x n. node_at r x = Some n \<Longrightarrow>
              \<exists>n0. node_at (root st) x = Some n0 \<and> id' (info n) = id' (info n0)"
    unfolding r node_at_applyColor by (auto simp: applyColor_sel split: option.splits)
  have ids: "\<forall>d \<in> set ds. id' (info d) \<noteq> []"
  proof
    fix d assume "d \<in> set ds"
    with assms(2) obtain x where x: "node_at r x = Some d" by blast
    from at [OF x] obtain n0 where n0: "node_at (root st) x = Some n0"
      "id' (info d) = id' (info n0)" by blast
    show "id' (info d) \<noteq> []"
    proof (cases "x = []")
      case True
      with n0 ok show ?thesis by (simp add: state_ok_def info_at_def root_node_simps)
    next
      case False
      from n0(1) have "info_at (root st) x = Some (info n0)" by (simp add: info_at_def)
      with ok False obtain i where "info n0 = info (make_node i (?ls ! i))"
        unfolding state_ok_def by blast
      with n0(2) show ?thesis by (simp add: make_node_simps)
    qed
  qed
  have targets: "\<forall>l t. m l = Some t \<longrightarrow> (\<exists>d \<in> set ds. id' (info d) = t)"
  proof (intro allI impI)
    fix l t assume "m l = Some t"
    with labelToId_last_declaration [OF st, of l t] m obtain i where
      i: "declares ?ls i l" "t = ''n_'' @ show_nat i" by blast
    from i(1) have "i < length ?ls" "trim (?ls ! i) \<noteq> []" by (simp_all add: declares_def)
    with ok obtain x where "info_at (root st) x = Some (info (make_node i (?ls ! i)))"
      unfolding state_ok_def by blast
    then obtain n0 where n0: "node_at (root st) x = Some n0"
      "info n0 = info (make_node i (?ls ! i))" by (auto simp: info_at_def)
    define n where "n = applyColor n0 (inherited_at None (root st) x)"
    from n0(1) have "node_at r x = Some n" unfolding r n_def node_at_applyColor by simp
    with assms(2) have "n \<in> set ds" by blast
    moreover have "id' (info n) = t" unfolding n_def using n0(2) i(2)
      by (simp add: applyColor_sel make_node_simps)
    ultimately show "\<exists>d \<in> set ds. id' (info d) = t" by blast
  qed
  from crossLinks_resolved [OF ids targets] resolved_links_iff show ?thesis by blast
qed


theorem crossLinks_of_parse_witness:
  "\<exists>r m.
     parseText (''node '' @ BS # ''label{apple}'' @ [LF] @
                ''use '' @ BS # ''ref{apple} here'' @ [LF] @
                ''self '' @ BS # ''label{me} '' @ BS # ''ref{me} '' @ BS # ''ref{nope}'') = Inr (r, m) \<and>
     map (\<lambda>(f, t, c). (id' (info (preorder r ! f)), id' (info (preorder r ! t))))
       (crossLinks (preorder r) m) = [(''n_1'', ''n_0'')]"
proof -
  let ?input = "''node '' @ BS # ''label{apple}'' @ [LF] @
                ''use '' @ BS # ''ref{apple} here'' @ [LF] @
                ''self '' @ BS # ''label{me} '' @ BS # ''ref{me} '' @ BS # ''ref{nope}''"
  from parseText_returns [of ?input] obtain r m where pt: "parseText ?input = Inr (r, m)" by blast
  have ev: "case parseText ?input of
          Inl e \<Rightarrow> False
        | Inr (r, m) \<Rightarrow> resolved_links (preorder r) m = [(''n_1'', ''n_0'')]"
    by code_simp
  have rl: "resolved_links (preorder r) m = [(''n_1'', ''n_0'')]"
    using ev [unfolded pt sum.case prod.case] .
  have cover: "\<forall>n. n \<in> set (preorder r) \<longleftrightarrow> (\<exists>x. node_at r x = Some n)"
    using preorder_iff by blast
  from crossLinks_of_parse [OF pt cover]
  have "map (\<lambda>(f, t, c). (id' (info (preorder r ! f)), id' (info (preorder r ! t))))
       (crossLinks (preorder r) m) = resolved_links (preorder r) m" by blast
  with rl pt show ?thesis by - (intro exI [of _ r] exI [of _ m] conjI; simp)
qed

section \<open>The display text (C9)\<close>

text \<open>
  The claim describes the display text as one pipeline: the directives are removed from
  the working text, white space is collapsed, and the result is trimmed.
  \<open>remove_directive\<close> removes the first directive of a kind and does not trim;
  \<open>strip_directives\<close> removes the first colour, label, part-of-speech, translation and tags
  directive in that order and then every reference; \<open>normalised_text\<close> collapses and trims
  the result.  The program trims after every removal instead; \<open>padded u v\<close> says that \<open>v\<close>
  is \<open>u\<close> with white space around it, which is all the difference that makes.
  \<open>no_white_pair\<close> says that no two neighbours are white space.

  \<open>collapse_spaces\<close> and \<open>claimed_display_text\<close> follow the words of the claim, which
  collapse runs of two or more spaces only.
\<close>

definition remove_directive :: "bool \<Rightarrow> string \<Rightarrow> string \<Rightarrow> string" where
  "remove_directive ci kw s =
     (case find_directive ci kw s of None \<Rightarrow> s | Some (pre, m0, m1, rest) \<Rightarrow> pre @ rest)"

definition blank :: "string \<Rightarrow> bool" where
  "blank w \<longleftrightarrow> (\<forall>c \<in> set w. isWhite c)"

definition padded :: "string \<Rightarrow> string \<Rightarrow> bool" where
  "padded u v \<longleftrightarrow> (\<exists>w1 w2. blank w1 \<and> blank w2 \<and> v = w1 @ u @ w2)"

definition rtrim :: "string \<Rightarrow> string" where
  "rtrim s = rev (dropWhile isWhite (rev s))"

definition single_directives_removed :: "string \<Rightarrow> string" where
  "single_directives_removed t =
     remove_directive True ''tags''
       (remove_directive True ''jp''
         (remove_directive True ''pos''
           (remove_directive False ''label''
             (remove_directive True ''color'' t))))"

definition strip_directives :: "string \<Rightarrow> string" where
  "strip_directives t = remove_refs (single_directives_removed t)"

fun no_white_pair :: "string \<Rightarrow> bool" where
  "no_white_pair [] \<longleftrightarrow> True"
| "no_white_pair [c] \<longleftrightarrow> True"
| "no_white_pair (a # b # s) \<longleftrightarrow> \<not> (isWhite a \<and> isWhite b) \<and> no_white_pair (b # s)"

definition normalised_text :: "string \<Rightarrow> string" where
  "normalised_text raw = trim (collapse (strip_directives (snd (getDepth raw))))"

function collapse_spaces :: "string \<Rightarrow> string" where
  "collapse_spaces [] = []"
| "collapse_spaces (c # cs) =
     (if c = SP \<and> takeWhile (\<lambda>x. x = SP) cs \<noteq> []
      then SP # collapse_spaces (dropWhile (\<lambda>x. x = SP) cs)
      else c # collapse_spaces cs)"
  by pat_completeness auto
termination
  by (relation "measure length") (auto simp: length_dropWhile_le less_Suc_eq_le)

definition claimed_display_text :: "string \<Rightarrow> string" where
  "claimed_display_text raw =
     (let text = trim (collapse_spaces (strip_directives (snd (getDepth raw))))
      in if text \<noteq> [] then text else ''(untitled)'')"

lemma remove_first_found:
  assumes "plain_keyword kw"
  shows "find_directive ci kw s = Some (pre, m0, m1, rest) \<Longrightarrow> remove_first m0 s = pre @ rest"
proof (induction pre arbitrary: s)
  case Nil
  from find_directive_Some [OF Nil] have s: "s = m0 @ rest" "m0 \<noteq> []" by simp_all
  then obtain c cs where c: "m0 = c # cs" by (cases m0) auto
  with s have "remove_first m0 s = drop (length m0) s" by simp
  with s show ?case by simp
next
  case (Cons c pre)
  from Cons.prems have h: "s = (c # pre) @ m0 @ rest" "is_directive ci kw m0 m1"
    "\<forall>j < length (c # pre). \<not> directive_at ci kw (drop j s)"
    using find_directive_iff [OF assms] by blast+
  define cs where "cs = pre @ m0 @ rest"
  from h(1) have s: "s = c # cs" by (simp add: cs_def)
  have "\<forall>j < length pre. \<not> directive_at ci kw (drop j cs)"
  proof (intro allI impI)
    fix j assume "j < length pre"
    then have "Suc j < length (c # pre)" by simp
    with h(3) have "\<not> directive_at ci kw (drop (Suc j) s)" by blast
    then show "\<not> directive_at ci kw (drop j cs)" by (simp add: s)
  qed
  with h(2) have "find_directive ci kw cs = Some (pre, m0, m1, rest)"
    using find_directive_iff [OF assms, of ci cs pre m0 m1 rest] by (simp add: cs_def)
  from Cons.IH [OF this] have IH: "remove_first m0 cs = pre @ rest" .
  from h(3) have "\<not> directive_at ci kw (drop 0 s)" by auto
  with h(2) have "\<not> prefix m0 s" by (auto simp: directive_at_def)
  with s IH show ?case by simp
qed

lemma extract_directive_eq:
  assumes "plain_keyword kw"
  shows "extract_directive ci kw s =
           (case find_directive ci kw s of
              None \<Rightarrow> (None, s)
            | Some (pre, m0, m1, rest) \<Rightarrow> (Some m1, trim (remove_directive ci kw s)))"
proof (cases "find_directive ci kw s")
  case None
  then show ?thesis by (simp add: extract_directive_def)
next
  case (Some r)
  obtain pre m0 m1 rest where r: "r = (pre, m0, m1, rest)" by (cases r)
  with Some remove_first_found [OF assms, of ci s pre m0 m1 rest] show ?thesis
    by (simp add: extract_directive_def remove_directive_def)
qed

lemma blank_simps [simp]:
  "blank []" "blank (c # w) \<longleftrightarrow> isWhite c \<and> blank w" "blank (u @ v) \<longleftrightarrow> blank u \<and> blank v"
  by (auto simp: blank_def)

lemma dropWhile_blank: "blank w \<Longrightarrow> dropWhile isWhite (w @ s) = dropWhile isWhite s"
  by (induction w) simp_all

lemma dropWhile_blank_Nil: "blank w \<Longrightarrow> dropWhile isWhite w = []"
  by (induction w) simp_all

lemma takeWhile_blank: "blank (takeWhile isWhite s)"
  by (induction s) simp_all

lemma trim_decomp: "\<exists>w1 w2. blank w1 \<and> blank w2 \<and> s = w1 @ trim s @ w2"
proof -
  define w1 where "w1 = takeWhile isWhite s"
  define t where "t = dropWhile isWhite s"
  define w2 where "w2 = rev (takeWhile isWhite (rev t))"
  have "s = w1 @ t" by (simp add: w1_def t_def)
  moreover have "rev t = takeWhile isWhite (rev t) @ dropWhile isWhite (rev t)" by simp
  then have "t = rev (dropWhile isWhite (rev t)) @ w2"
    unfolding w2_def by (metis rev_append rev_rev_ident)
  moreover have "blank w1" unfolding w1_def by (rule takeWhile_blank)
  moreover have "blank w2" unfolding w2_def using takeWhile_blank [of "rev t"]
    by (simp add: blank_def)
  ultimately have "blank w1 \<and> blank w2 \<and> s = w1 @ trim s @ w2"
    by (simp add: trim_def t_def)
  then show ?thesis by blast
qed

lemma trim_pad: "blank w1 \<Longrightarrow> blank w2 \<Longrightarrow> trim (w1 @ s @ w2) = trim s"
proof -
  assume b: "blank w1" "blank w2"
  show ?thesis
  proof (cases "blank s")
    case True
    with b have "blank (w1 @ s @ w2)" by simp
    then have "trim (w1 @ s @ w2) = []" by (simp add: trim_def dropWhile_blank_Nil)
    moreover from True have "trim s = []" by (simp add: trim_def dropWhile_blank_Nil)
    ultimately show ?thesis by simp
  next
    case False
    then have ne: "dropWhile isWhite s \<noteq> []" by (auto simp: blank_def dropWhile_eq_Nil_conv)
    from False obtain x where "x \<in> set s" "\<not> isWhite x" by (auto simp: blank_def)
    then have "dropWhile isWhite (s @ w2) = dropWhile isWhite s @ w2"
      by (rule dropWhile_append1)
    then have 1: "dropWhile isWhite (w1 @ s @ w2) = dropWhile isWhite s @ w2"
      using b(1) by (simp add: dropWhile_blank)
    have "rev (dropWhile isWhite s @ w2) = rev w2 @ rev (dropWhile isWhite s)" by simp
    moreover have "blank (rev w2)" using b(2) by (simp add: blank_def)
    ultimately have "dropWhile isWhite (rev (dropWhile isWhite s @ w2)) =
        dropWhile isWhite (rev (dropWhile isWhite s))"
      by (simp add: dropWhile_blank)
    with 1 show ?thesis by (simp add: trim_def)
  qed
qed

lemma padded_refl: "padded u u"
  unfolding padded_def by (metis append_Nil append_Nil2 blank_simps(1))

lemma padded_trim: "padded (trim s) s"
  unfolding padded_def using trim_decomp [of s] by blast

lemma padded_trans: "padded u v \<Longrightarrow> padded v w \<Longrightarrow> padded u w"
proof -
  assume "padded u v" "padded v w"
  then obtain a b c d where "blank a" "blank b" "v = a @ u @ b" "blank c" "blank d" "w = c @ v @ d"
    unfolding padded_def by blast
  then have "blank (c @ a) \<and> blank (b @ d) \<and> w = (c @ a) @ u @ (b @ d)" by simp
  then show ?thesis unfolding padded_def by blast
qed

lemma padded_trim_eq: "padded u v \<Longrightarrow> trim v = trim u"
  unfolding padded_def using trim_pad by auto


lemma isWhite_not_BS: "isWhite c \<Longrightarrow> c \<noteq> BS"
  by (auto simp: isWhite_def BS_def)

lemma isWhite_not_RBRACE: "isWhite c \<Longrightarrow> c \<noteq> RBRACE"
  by (auto simp: isWhite_def RBRACE_def)

lemma find_directive_white_Cons:
  assumes "isWhite c"
  shows "find_directive ci kw (c # s) =
           map_option (\<lambda>(pre, m0, m1, rest). (c # pre, m0, m1, rest)) (find_directive ci kw s)"
proof -
  from assms have "match_at ci kw (c # s) = None"
    by (simp add: match_at_def isWhite_not_BS)
  then show ?thesis
    by (simp add: find_directive.simps [of ci kw "c # s"] split: option.splits)
qed

lemma find_directive_blank_prefix:
  "blank w \<Longrightarrow>
   find_directive ci kw (w @ s) =
     map_option (\<lambda>(pre, m0, m1, rest). (w @ pre, m0, m1, rest)) (find_directive ci kw s)"
proof (induction w)
  case Nil
  then show ?case by (simp add: option.map_ident split_beta)
next
  case (Cons c w)
  then have c: "isWhite c" and w: "blank w" by simp_all
  show ?case
    using find_directive_white_Cons [OF c, of ci kw "w @ s"] Cons.IH [OF w]
    by (simp add: option.map_comp o_def split_beta)
qed

lemma is_directive_last: "is_directive ci kw m0 m1 \<Longrightarrow> m0 \<noteq> [] \<and> last m0 = RBRACE"
  by (auto simp: is_directive_def)

lemma match_at_blank_suffix:
  assumes kw: "plain_keyword kw" and w: "blank w"
  shows "match_at ci kw (s @ w) =
           map_option (\<lambda>(m0, m1, rest). (m0, m1, rest @ w)) (match_at ci kw s)"
proof (cases "match_at ci kw s")
  case (Some r)
  obtain m0 m1 rest where r: "r = (m0, m1, rest)" by (cases r)
  with Some have "s = m0 @ rest \<and> is_directive ci kw m0 m1"
    using match_at_iff [OF kw] by blast
  then have "s @ w = m0 @ (rest @ w) \<and> is_directive ci kw m0 m1" by simp
  then have "match_at ci kw (s @ w) = Some (m0, m1, rest @ w)"
    using match_at_iff [OF kw] by blast
  with Some r show ?thesis by simp
next
  case None
  have "match_at ci kw (s @ w) = None"
  proof (rule ccontr)
    assume "match_at ci kw (s @ w) \<noteq> None"
    then obtain m0 m1 r where m: "match_at ci kw (s @ w) = Some (m0, m1, r)" by auto
    then have h: "s @ w = m0 @ r" "is_directive ci kw m0 m1"
      using match_at_iff [OF kw] by blast+
    from is_directive_last [OF h(2)] have l: "m0 \<noteq> []" "last m0 = RBRACE" by simp_all
    have "length m0 \<le> length s"
    proof (rule ccontr)
      assume "\<not> length m0 \<le> length s"
      moreover from h(1) have "\<exists>us. (s = m0 @ us \<and> us @ w = r) \<or> (s @ us = m0 \<and> w = us @ r)"
        by (simp only: append_eq_append_conv2)
      ultimately obtain w' where w': "m0 = s @ w'" "w' \<noteq> []" "w = w' @ r"
        by auto
      then have "last m0 = last w'" by simp
      moreover from w' have "last w' \<in> set w" by simp
      ultimately have "isWhite (last m0)" using w by (auto simp: blank_def)
      with l(2) show False using isWhite_not_RBRACE by blast
    qed
    with h(1) obtain r' where "s = m0 @ r'"
      by (metis append_eq_append_conv_if append_take_drop_id)
    with h(2) have "match_at ci kw s = Some (m0, m1, r')"
      using match_at_iff [OF kw] by blast
    with None show False by simp
  qed
  with None show ?thesis by simp
qed

lemma find_directive_blank_suffix:
  assumes kw: "plain_keyword kw" and w: "blank w"
  shows "find_directive ci kw (s @ w) =
           map_option (\<lambda>(pre, m0, m1, rest). (pre, m0, m1, rest @ w)) (find_directive ci kw s)"
proof (induction s)
  case Nil
  have "find_directive ci kw ([] @ [] :: string) = None"
    by (simp add: find_directive.simps [of _ _ "[]"] match_at_def)
  with find_directive_blank_prefix [OF w, of ci kw "[]"] show ?case by simp
next
  case (Cons c cs)
  show ?case
  proof (cases "match_at ci kw (c # cs)")
    case (Some r)
    obtain m0 m1 rest where r: "r = (m0, m1, rest)" by (cases r)
    from match_at_blank_suffix [OF kw w, of ci "c # cs"] Some r
    have "match_at ci kw (c # cs @ w) = Some (m0, m1, rest @ w)" by simp
    with Some r show ?thesis
      by (simp add: find_directive.simps [of ci kw "c # cs"] find_directive.simps [of ci kw "c # cs @ w"])
  next
    case None
    from match_at_blank_suffix [OF kw w, of ci "c # cs"] None
    have "match_at ci kw (c # cs @ w) = None" by simp
    with None Cons.IH show ?thesis
      by (simp add: find_directive.simps [of ci kw "c # cs"] find_directive.simps [of ci kw "c # cs @ w"]
          option.map_comp o_def split_beta split: option.splits)
  qed
qed

lemma find_directive_pad:
  assumes "plain_keyword kw" "blank w1" "blank w2"
  shows "find_directive ci kw (w1 @ s @ w2) =
           map_option (\<lambda>(pre, m0, m1, rest). (w1 @ pre, m0, m1, rest @ w2)) (find_directive ci kw s)"
  using find_directive_blank_prefix [OF assms(2), of ci kw "s @ w2"]
    find_directive_blank_suffix [OF assms(1,3), of ci s]
  by (cases "find_directive ci kw s") auto


lemma remove_refs_pad:
  assumes "blank w1" "blank w2"
  shows "remove_refs (w1 @ s @ w2) = w1 @ remove_refs s @ w2"
    and "map (\<lambda>(pre, m0, m1). m1) (ref_matches (w1 @ s @ w2)) =
         map (\<lambda>(pre, m0, m1). m1) (ref_matches s)"
proof -
  have kw: "plain_keyword ''ref''" by (rule plain_keywords)
  have "remove_refs (w1 @ s @ w2) = w1 @ remove_refs s @ w2 \<and>
        map (\<lambda>(pre, m0, m1). m1) (ref_matches (w1 @ s @ w2)) =
        map (\<lambda>(pre, m0, m1). m1) (ref_matches s)"
    using assms(1)
  proof (induction s arbitrary: w1 rule: remove_refs.induct)
    case (1 s)
    show ?case
    proof (cases "find_directive False ''ref'' s")
      case None
      with find_directive_pad [OF kw "1.prems" assms(2), of False s]
      have "find_directive False ''ref'' (w1 @ s @ w2) = None" by simp
      with None show ?thesis
        by (simp add: remove_refs.simps [of s] remove_refs.simps [of "w1 @ s @ w2"]
            ref_matches.simps [of s] ref_matches.simps [of "w1 @ s @ w2"])
    next
      case (Some r)
      obtain pre m0 m1 rest where r: "r = (pre, m0, m1, rest)" by (cases r)
      with Some find_directive_pad [OF kw "1.prems" assms(2), of False s]
      have f: "find_directive False ''ref'' (w1 @ s @ w2) = Some (w1 @ pre, m0, m1, rest @ w2)"
        by simp
      have "blank []" by simp
      from "1.IH" [OF Some [unfolded r] refl refl refl this]
      have IH: "remove_refs (rest @ w2) = remove_refs rest @ w2"
        "map (\<lambda>(pre, m0, m1). m1) (ref_matches (rest @ w2)) =
         map (\<lambda>(pre, m0, m1). m1) (ref_matches rest)" by simp_all
      from Some r f IH show ?thesis
        by (simp add: remove_refs.simps [of s] remove_refs.simps [of "w1 @ s @ w2"]
            ref_matches.simps [of s] ref_matches.simps [of "w1 @ s @ w2"])
    qed
  qed
  then show "remove_refs (w1 @ s @ w2) = w1 @ remove_refs s @ w2"
    and "map (\<lambda>(pre, m0, m1). m1) (ref_matches (w1 @ s @ w2)) =
         map (\<lambda>(pre, m0, m1). m1) (ref_matches s)" by simp_all
qed

lemma padded_remove_directive:
  assumes kw: "plain_keyword kw" and p: "padded u v"
  shows "padded (snd (extract_directive ci kw u)) (remove_directive ci kw v)"
    and "fst (extract_directive ci kw u) =
           map_option (\<lambda>(pre, m0, m1, rest). m1) (find_directive ci kw v)"
proof -
  from p obtain w1 w2 where w: "blank w1" "blank w2" "v = w1 @ u @ w2"
    unfolding padded_def by blast
  note f = find_directive_pad [OF kw w(1,2), of ci u, folded w(3)]
  show "padded (snd (extract_directive ci kw u)) (remove_directive ci kw v)"
  proof (cases "find_directive ci kw u")
    case None
    with f p show ?thesis
      by (simp add: extract_directive_eq [OF kw] remove_directive_def)
  next
    case (Some r)
    obtain pre m0 m1 rest where r: "r = (pre, m0, m1, rest)" by (cases r)
    with Some f have v: "remove_directive ci kw v = w1 @ (pre @ rest) @ w2"
      by (simp add: remove_directive_def)
    from Some r have u: "snd (extract_directive ci kw u) = trim (pre @ rest)"
      by (simp add: extract_directive_eq [OF kw] remove_directive_def)
    have "padded (pre @ rest) (w1 @ (pre @ rest) @ w2)"
      unfolding padded_def using w(1,2) by blast
    with padded_trim [of "pre @ rest"] show ?thesis
      unfolding u v by (rule padded_trans)
  qed
  show "fst (extract_directive ci kw u) =
           map_option (\<lambda>(pre, m0, m1, rest). m1) (find_directive ci kw v)"
    unfolding f by (cases "find_directive ci kw u") (auto simp: extract_directive_eq [OF kw])
qed


lemma trim_rtrim: "trim s = rtrim (dropWhile isWhite s)"
  by (simp add: trim_def rtrim_def)

lemma rtrim_blank: "blank w \<Longrightarrow> rtrim w = []"
  by (simp add: rtrim_def dropWhile_blank_Nil blank_def)

lemma rtrim_Cons: "rtrim (a # y) = (if rtrim y = [] \<and> isWhite a then [] else a # rtrim y)"
proof (cases "rtrim y = []")
  case True
  then have "dropWhile isWhite (rev y) = []" by (simp add: rtrim_def)
  then have "\<And>c. c \<in> set (rev y) \<Longrightarrow> isWhite c" by (simp add: dropWhile_eq_Nil_conv)
  then have "dropWhile isWhite (rev y @ [a]) = dropWhile isWhite [a]"
    by (rule dropWhile_append2)
  then have "rtrim (a # y) = rev (dropWhile isWhite [a])" by (simp only: rtrim_def rev.simps)
  with True show ?thesis by simp
next
  case False
  then have "dropWhile isWhite (rev y) \<noteq> []" by (simp add: rtrim_def)
  then obtain x where "x \<in> set (rev y)" "\<not> isWhite x" by (auto simp: dropWhile_eq_Nil_conv)
  then have "dropWhile isWhite (rev y @ [a]) = dropWhile isWhite (rev y) @ [a]"
    by (rule dropWhile_append1)
  with False show ?thesis by (simp add: rtrim_def)
qed

lemma collapse_blank: "blank w \<Longrightarrow> blank (collapse w)"
proof (induction w rule: collapse.induct)
  case 1
  then show ?case by simp
next
  case (2 c cs)
  have sp: "isWhite SP" by (simp add: isWhite_def SP_def)
  from "2.prems" have c: "isWhite c" and cs: "blank cs" by simp_all
  show ?case
  proof (cases "takeWhile isWhite cs \<noteq> []")
    case True
    from cs have "dropWhile isWhite cs = []" by (rule dropWhile_blank_Nil)
    with True c sp show ?thesis by (simp del: dropWhile_eq_Nil_conv)
  next
    case False
    with "2.IH"(2) cs c show ?thesis by simp
  qed
qed

lemma dropWhile_collapse: "dropWhile isWhite (collapse x) = collapse (dropWhile isWhite x)"
proof (induction x rule: collapse.induct)
  case 1
  then show ?case by simp
next
  case (2 c cs)
  have sp: "isWhite SP" by (simp add: isWhite_def SP_def)
  show ?case
  proof (cases "isWhite c")
    case False
    then show ?thesis by simp
  next
    case True
    show ?thesis
    proof (cases "takeWhile isWhite cs \<noteq> []")
      case t: True
      with True "2.IH"(1) sp show ?thesis by simp
    next
      case f: False
      with True "2.IH"(2) show ?thesis by simp
    qed
  qed
qed

lemma rtrim_collapse_blank: "blank w \<Longrightarrow> rtrim (collapse (x @ w)) = rtrim (collapse x)"
proof (induction x rule: collapse.induct)
  case 1
  then show ?case using collapse_blank [of w] by (simp add: rtrim_blank)
next
  case (2 c cs)
  have sp: "isWhite SP" by (simp add: isWhite_def SP_def)
  note w = "2.prems"
  show ?case
  proof (cases "isWhite c \<and> takeWhile isWhite cs \<noteq> []")
    case True
    then have c: "isWhite c" and t: "takeWhile isWhite cs \<noteq> []" by simp_all
    from t have t': "takeWhile isWhite (cs @ w) \<noteq> []" by (cases cs) (auto split: if_splits)
    have l: "collapse (c # cs) = SP # collapse (dropWhile isWhite cs)" using c t by simp
    have r: "collapse ((c # cs) @ w) = SP # collapse (dropWhile isWhite (cs @ w))"
      using c t' by simp
    show ?thesis
    proof (cases "blank cs")
      case True
      with w have "blank (cs @ w)" by simp
      then have "dropWhile isWhite (cs @ w) = []" by (rule dropWhile_blank_Nil)
      moreover from True have "dropWhile isWhite cs = []" by (rule dropWhile_blank_Nil)
      ultimately show ?thesis unfolding l r by (simp only:)
    next
      case False
      then obtain x where "x \<in> set cs" "\<not> isWhite x" by (auto simp: blank_def)
      then have "dropWhile isWhite (cs @ w) = dropWhile isWhite cs @ w"
        by (rule dropWhile_append1)
      with "2.IH"(1) [OF True w] l r show ?thesis by (simp add: rtrim_Cons)
    qed
  next
    case False
    then have l: "collapse (c # cs) = c # collapse cs" by auto
    show ?thesis
    proof (cases "isWhite c \<and> cs = [] \<and> w \<noteq> []")
      case True
      then obtain a as where as: "w = a # as" by (cases w) auto
      with w have a: "isWhite a" "blank as" by simp_all
      then have "dropWhile isWhite as = []" by (simp add: dropWhile_blank_Nil)
      with True as a have "collapse ((c # cs) @ w) = [SP]" by (simp del: dropWhile_eq_Nil_conv)
      moreover from True have "collapse (c # cs) = [c]" by simp
      ultimately show ?thesis using True sp by (simp add: rtrim_Cons rtrim_def)
    next
      case F2: False
      have "\<not> (isWhite c \<and> takeWhile isWhite (cs @ w) \<noteq> [])"
      proof (cases cs)
        case Nil
        with F2 False show ?thesis by auto
      next
        case (Cons d ds)
        with False show ?thesis by auto
      qed
      then have r: "collapse ((c # cs) @ w) = c # collapse (cs @ w)" by auto
      from "2.IH"(2) [OF False w] l r show ?thesis by (simp add: rtrim_Cons)
    qed
  qed
qed

lemma trim_collapse_pad:
  assumes "blank w1" "blank w2"
  shows "trim (collapse (w1 @ u @ w2)) = trim (collapse u)"
proof -
  have "trim (collapse (w1 @ u @ w2)) = rtrim (collapse (dropWhile isWhite (u @ w2)))"
    using assms(1) by (simp add: trim_rtrim dropWhile_collapse dropWhile_blank)
  also have "\<dots> = rtrim (collapse (dropWhile isWhite u))"
  proof (cases "blank u")
    case True
    with assms(2) have "blank (u @ w2)" by simp
    then have "dropWhile isWhite (u @ w2) = []" by (rule dropWhile_blank_Nil)
    moreover from True have "dropWhile isWhite u = []" by (rule dropWhile_blank_Nil)
    ultimately show ?thesis by (simp only:)
  next
    case False
    then obtain x where "x \<in> set u" "\<not> isWhite x" by (auto simp: blank_def)
    then have "dropWhile isWhite (u @ w2) = dropWhile isWhite u @ w2"
      by (rule dropWhile_append1)
    with rtrim_collapse_blank [OF assms(2)] show ?thesis by simp
  qed
  also have "\<dots> = trim (collapse u)" by (simp add: trim_rtrim dropWhile_collapse)
  finally show ?thesis .
qed

lemma padded_trim_collapse: "padded u v \<Longrightarrow> trim (collapse v) = trim (collapse u)"
  unfolding padded_def using trim_collapse_pad by auto


lemma text_at_refs_padded:
  "padded (text_at_refs raw) (single_directives_removed (snd (getDepth raw)))"
proof -
  have 0: "padded (text_at_color raw) (snd (getDepth raw))"
    unfolding text_at_color_def by (rule padded_trim)
  note 1 = padded_remove_directive(1) [OF plain_keywords(1) 0, of True, folded text_at_label_def]
  note 2 = padded_remove_directive(1) [OF plain_keywords(2) 1, of False, folded text_at_pos_def]
  note 3 = padded_remove_directive(1) [OF plain_keywords(3) 2, of True, folded text_at_jp_def]
  note 4 = padded_remove_directive(1) [OF plain_keywords(4) 3, of True, folded text_at_tags_def]
  note 5 = padded_remove_directive(1) [OF plain_keywords(5) 4, of True, folded text_at_refs_def]
  then show ?thesis unfolding single_directives_removed_def .
qed

lemma padded_remove_refs: "padded u v \<Longrightarrow> padded (remove_refs u) (remove_refs v)"
  unfolding padded_def using remove_refs_pad(1) by blast

lemma display_text_strip:
  "text' (info (make_node idx raw)) = display_text (strip_directives (snd (getDepth raw)))"
proof -
  from padded_remove_refs [OF text_at_refs_padded [of raw]]
  have "trim (collapse (strip_directives (snd (getDepth raw)))) =
        trim (collapse (remove_refs (text_at_refs raw)))"
    unfolding strip_directives_def by (rule padded_trim_collapse)
  then show ?thesis by (simp add: make_node_eq display_text_def)
qed

lemma filter_dropWhile_white:
  "filter (\<lambda>c. \<not> isWhite c) (dropWhile isWhite s) = filter (\<lambda>c. \<not> isWhite c) s"
  by (induction s) simp_all

lemma filter_blank: "blank w \<Longrightarrow> filter (\<lambda>c. \<not> isWhite c) w = []"
  by (induction w) simp_all

lemma filter_collapse: "filter (\<lambda>c. \<not> isWhite c) (collapse s) = filter (\<lambda>c. \<not> isWhite c) s"
proof (induction s rule: collapse.induct)
  case 1
  then show ?case by simp
next
  case (2 c cs)
  have sp: "isWhite SP" by (simp add: isWhite_def SP_def)
  show ?case
  proof (cases "isWhite c \<and> takeWhile isWhite cs \<noteq> []")
    case True
    with "2.IH"(1) sp show ?thesis by (simp add: filter_dropWhile_white)
  next
    case False
    with "2.IH"(2) show ?thesis by auto
  qed
qed

lemma filter_trim: "filter (\<lambda>c. \<not> isWhite c) (trim s) = filter (\<lambda>c. \<not> isWhite c) s"
proof -
  from trim_decomp [of s] obtain w1 w2 where "blank w1" "blank w2" "s = w1 @ trim s @ w2" by blast
  then have "filter (\<lambda>c. \<not> isWhite c) s =
      filter (\<lambda>c. \<not> isWhite c) w1 @ filter (\<lambda>c. \<not> isWhite c) (trim s) @ filter (\<lambda>c. \<not> isWhite c) w2"
    by (metis filter_append)
  with \<open>blank w1\<close> \<open>blank w2\<close> show ?thesis by (simp add: filter_blank)
qed

lemma trim_ends:
  assumes "trim s \<noteq> []"
  shows "\<not> isWhite (hd (trim s))" and "\<not> isWhite (last (trim s))"
proof -
  define t where "t = dropWhile isWhite s"
  have tr: "trim s = rev (dropWhile isWhite (rev t))" by (simp add: trim_def t_def)
  with assms have ne: "dropWhile isWhite (rev t) \<noteq> []" by simp
  then have "\<not> isWhite (hd (dropWhile isWhite (rev t)))" by (rule hd_dropWhile)
  with ne show "\<not> isWhite (last (trim s))" unfolding tr by (simp add: last_rev)
  from ne have tne: "t \<noteq> []" by auto
  then have ht: "\<not> isWhite (hd t)" unfolding t_def by (rule hd_dropWhile)
  have "rev t = takeWhile isWhite (rev t) @ dropWhile isWhite (rev t)" by simp
  then have "t = trim s @ rev (takeWhile isWhite (rev t))"
    unfolding tr by (metis rev_append rev_rev_ident)
  with assms have "hd t = hd (trim s)" by (metis hd_append2)
  with ht show "\<not> isWhite (hd (trim s))" by simp
qed

lemma hd_collapse: "s \<noteq> [] \<Longrightarrow> \<not> isWhite (hd s) \<Longrightarrow> collapse s \<noteq> [] \<and> hd (collapse s) = hd s"
  by (cases s) simp_all

lemma no_white_pair_Cons:
  "no_white_pair (a # s) \<longleftrightarrow> (s = [] \<or> \<not> (isWhite a \<and> isWhite (hd s))) \<and> no_white_pair s"
  by (cases s) auto

lemma no_white_pair_collapse: "no_white_pair (collapse s)"
proof (induction s rule: collapse.induct)
  case 1
  then show ?case by simp
next
  case (2 c cs)
  show ?case
  proof (cases "isWhite c \<and> takeWhile isWhite cs \<noteq> []")
    case True
    define d where "d = dropWhile isWhite cs"
    have "d = [] \<or> \<not> isWhite (hd d)" unfolding d_def using hd_dropWhile [of isWhite cs] by blast
    then have "collapse d = [] \<or> \<not> isWhite (hd (collapse d))"
    proof
      assume "d = []"
      then show ?thesis by simp
    next
      assume nw: "\<not> isWhite (hd d)"
      show ?thesis
      proof (cases "d = []")
        case True
        then show ?thesis by simp
      next
        case False
        from hd_collapse [OF False nw] nw show ?thesis by simp
      qed
    qed
    with True "2.IH"(1) [OF True] show ?thesis
      by (simp add: no_white_pair_Cons d_def del: dropWhile_eq_Nil_conv)
  next
    case False
    have "collapse cs = [] \<or> \<not> (isWhite c \<and> isWhite (hd (collapse cs)))"
    proof (cases cs)
      case Nil
      then show ?thesis by simp
    next
      case (Cons e es)
      show ?thesis
      proof (cases "isWhite c")
        case True
        with False Cons have "\<not> isWhite e" by auto
        with Cons hd_collapse [of cs] show ?thesis by simp
      next
        case nw: False
        then show ?thesis by simp
      qed
    qed
    with False "2.IH"(2) [OF False] show ?thesis by (auto simp: no_white_pair_Cons)
  qed
qed

lemma no_white_pair_append: "no_white_pair (xs @ ys) \<Longrightarrow> no_white_pair xs \<and> no_white_pair ys"
proof (induction xs rule: no_white_pair.induct)
  case 1
  then show ?case by simp
next
  case (2 c)
  then show ?case by (simp add: no_white_pair_Cons)
next
  case (3 a b s)
  then show ?case by simp
qed

lemma no_white_pair_trim_collapse: "no_white_pair (trim (collapse s))"
proof -
  from trim_decomp [of "collapse s"] obtain w1 w2 where
    "collapse s = w1 @ trim (collapse s) @ w2" by blast
  with no_white_pair_collapse [of s] have "no_white_pair (w1 @ trim (collapse s) @ w2)" by simp
  then show ?thesis using no_white_pair_append by blast
qed


text \<open>
  Claim C9, as amended.  The display text of the node of a line is the normalised text of
  the line, or the placeholder \<^verbatim>\<open>(untitled)\<close> when that is empty, so it is never empty.
  The normalised text is the working text without the recognised directives, with every
  run of two or more white-space characters (spaces, tabs and the others that \<^verbatim>\<open>\s\<close>
  matches) replaced by one space, and trimmed: it has the characters other than white
  space of the stripped text, in their order, no two neighbouring white-space characters,
  and no white space at either end.
\<close>

theorem displayText_normalised:
  "text' (info (make_node idx raw)) =
     (if normalised_text raw \<noteq> [] then normalised_text raw else ''(untitled)'') \<and>
   text' (info (make_node idx raw)) \<noteq> [] \<and>
   filter (\<lambda>c. \<not> isWhite c) (normalised_text raw) =
     filter (\<lambda>c. \<not> isWhite c) (strip_directives (snd (getDepth raw))) \<and>
   no_white_pair (normalised_text raw) \<and>
   (normalised_text raw \<noteq> [] \<longrightarrow>
      \<not> isWhite (hd (normalised_text raw)) \<and> \<not> isWhite (last (normalised_text raw)))"
proof -
  have 1: "text' (info (make_node idx raw)) =
     (if normalised_text raw \<noteq> [] then normalised_text raw else ''(untitled)'')"
    by (simp add: display_text_strip display_text_def normalised_text_def Let_def)
  then have 2: "text' (info (make_node idx raw)) \<noteq> []" by simp
  have 3: "filter (\<lambda>c. \<not> isWhite c) (normalised_text raw) =
     filter (\<lambda>c. \<not> isWhite c) (strip_directives (snd (getDepth raw)))"
    unfolding normalised_text_def by (simp only: filter_trim filter_collapse)
  have 4: "no_white_pair (normalised_text raw)"
    unfolding normalised_text_def by (rule no_white_pair_trim_collapse)
  have 5: "normalised_text raw \<noteq> [] \<longrightarrow>
      \<not> isWhite (hd (normalised_text raw)) \<and> \<not> isWhite (last (normalised_text raw))"
    unfolding normalised_text_def using trim_ends by blast
  from 1 2 3 4 5 show ?thesis by blast
qed

theorem displayText_normalised_witness:
  "trim (''  '' @ BS # ''color{red} '' @ BS # ''ref{x}'') \<noteq> [] \<and>
   normalised_text (''  '' @ BS # ''color{red} '' @ BS # ''ref{x}'') = [] \<and>
   text' (info (make_node 0 (''  '' @ BS # ''color{red} '' @ BS # ''ref{x}''))) = ''(untitled)'' \<and>
   normalised_text (''a   b '' @ BS # ''jp{x}  c'') = ''a b c'' \<and>
   text' (info (make_node 0 (''a   b '' @ BS # ''jp{x}  c''))) = ''a b c'' \<and>
   \<not> isWhite (hd (normalised_text (''a   b '' @ BS # ''jp{x}  c''))) \<and>
   \<not> isWhite (last (normalised_text (''a   b '' @ BS # ''jp{x}  c'')))"
proof -
  let ?r1 = "''  '' @ BS # ''color{red} '' @ BS # ''ref{x}''"
  let ?r2 = "''a   b '' @ BS # ''jp{x}  c''"
  have a: "trim ?r1 \<noteq> []" by code_simp
  have b: "normalised_text ?r1 = []" by code_simp
  have c: "normalised_text ?r2 = ''a b c''" by code_simp
  from displayText_normalised [of 0 ?r1] b
  have d: "text' (info (make_node 0 ?r1)) = ''(untitled)''" by simp
  from displayText_normalised [of 0 ?r2]
  have e: "text' (info (make_node 0 ?r2)) =
      (if normalised_text ?r2 \<noteq> [] then normalised_text ?r2 else ''(untitled)'')"
    and f: "normalised_text ?r2 \<noteq> [] \<longrightarrow>
      \<not> isWhite (hd (normalised_text ?r2)) \<and> \<not> isWhite (last (normalised_text ?r2))"
    by blast+
  from e have e': "text' (info (make_node 0 ?r2)) = ''a b c''" unfolding c by simp
  from f have f': "\<not> isWhite (hd (normalised_text ?r2)) \<and> \<not> isWhite (last (normalised_text ?r2))"
    unfolding c by simp
  from a b c d e' f' show ?thesis by (intro conjI) blast+
qed

text \<open>
  The line \<^verbatim>\<open>a\<close>, two tabs, \<^verbatim>\<open>b\<close> has no directive and no run of spaces: by the words of
  the claim its display text is the line itself; the program gives \<^verbatim>\<open>a b\<close>.
\<close>

theorem displayText_tabs_counterexample:
  "text' (info (make_node 0 (''a'' @ [TAB, TAB] @ ''b''))) = ''a b'' \<and>
   claimed_display_text (''a'' @ [TAB, TAB] @ ''b'') = ''a'' @ [TAB, TAB] @ ''b'' \<and>
   text' (info (make_node 0 (''a'' @ [TAB, TAB] @ ''b''))) \<noteq>
     claimed_display_text (''a'' @ [TAB, TAB] @ ''b'')"
  by code_simp

section \<open>References (C5)\<close>

text \<open>
  \<open>ref_scan t segs final\<close> reads the text \<open>t\<close> from left to right as the reference
  directives in it: \<open>segs\<close> lists each directive that starts before any other with the
  text in front of it, its own text and its payload; the scan goes on after the directive;
  \<open>final\<close> is the text left after the last one, in which no directive starts.  There is
  exactly one such reading of a text.  \<open>ref_rest\<close> is the text after the last match.
\<close>

function ref_rest :: "string \<Rightarrow> string" where
  "ref_rest s =
     (case find_directive False ''ref'' s of
        None \<Rightarrow> s
      | Some (pre, m0, m1, rest) \<Rightarrow> ref_rest rest)"
  by pat_completeness auto
termination
  by (relation "measure length") (auto dest: find_directive_length)

declare ref_rest.simps [simp del]

inductive ref_scan :: "string \<Rightarrow> (string \<times> string \<times> string) list \<Rightarrow> string \<Rightarrow> bool" where
  ref_scan_done:
    "(\<forall>j. \<not> directive_at False ''ref'' (drop j t)) \<Longrightarrow> ref_scan t [] t"
| ref_scan_next:
    "is_directive False ''ref'' m0 m1 \<Longrightarrow>
     (\<forall>j < length pre. \<not> directive_at False ''ref'' (drop j (pre @ m0 @ rest))) \<Longrightarrow>
     ref_scan rest segs final \<Longrightarrow>
     ref_scan (pre @ m0 @ rest) ((pre, m0, m1) # segs) final"

lemma ref_scan_total: "ref_scan t (ref_matches t) (ref_rest t)"
proof (induction t rule: ref_matches.induct)
  case (1 s)
  show ?case
  proof (cases "find_directive False ''ref'' s")
    case None
    then have "\<forall>j. \<not> directive_at False ''ref'' (drop j s)"
      using find_directive_None_iff [OF plain_keywords(6)] by blast
    then have "ref_scan s [] s" by (rule ref_scan_done)
    with None show ?thesis by (simp add: ref_matches.simps [of s] ref_rest.simps [of s])
  next
    case (Some r)
    obtain pre m0 m1 rest where r: "r = (pre, m0, m1, rest)" by (cases r)
    from Some r have h: "s = pre @ m0 @ rest" "is_directive False ''ref'' m0 m1"
      "\<forall>j < length pre. \<not> directive_at False ''ref'' (drop j s)"
      using find_directive_iff [OF plain_keywords(6)] by blast+
    from "1.IH" [OF Some [unfolded r] refl refl refl]
    have "ref_scan rest (ref_matches rest) (ref_rest rest)" .
    with h have "ref_scan (pre @ m0 @ rest) ((pre, m0, m1) # ref_matches rest) (ref_rest rest)"
      by (intro ref_scan_next) simp_all
    moreover from Some r have "ref_matches s = (pre, m0, m1) # ref_matches rest"
      "ref_rest s = ref_rest rest"
      by (simp_all add: ref_matches.simps [of s] ref_rest.simps [of s])
    ultimately show ?thesis using h(1) by simp
  qed
qed

lemma ref_scan_unique: "ref_scan t segs final \<Longrightarrow> segs = ref_matches t \<and> final = ref_rest t"
proof (induction rule: ref_scan.induct)
  case (ref_scan_done t)
  then have "find_directive False ''ref'' t = None"
    using find_directive_None_iff [OF plain_keywords(6)] by blast
  then show ?case by (simp add: ref_matches.simps [of t] ref_rest.simps [of t])
next
  case (ref_scan_next m0 m1 pre rest segs final)
  then have "find_directive False ''ref'' (pre @ m0 @ rest) = Some (pre, m0, m1, rest)"
    using find_directive_iff [OF plain_keywords(6)] by blast
  with ref_scan_next.IH show ?case
    by (simp add: ref_matches.simps [of "pre @ m0 @ rest"] ref_rest.simps [of "pre @ m0 @ rest"])
qed

lemma remove_refs_scan:
  "remove_refs t = concat (map (\<lambda>(pre, m0, m1). pre) (ref_matches t)) @ ref_rest t"
proof (induction t rule: remove_refs.induct)
  case (1 s)
  show ?case
  proof (cases "find_directive False ''ref'' s")
    case None
    then show ?thesis
      by (simp add: remove_refs.simps [of s] ref_matches.simps [of s] ref_rest.simps [of s])
  next
    case (Some r)
    obtain pre m0 m1 rest where r: "r = (pre, m0, m1, rest)" by (cases r)
    from "1.IH" [OF Some [unfolded r] refl refl refl] Some r show ?thesis
      by (simp add: remove_refs.simps [of s] ref_matches.simps [of s] ref_rest.simps [of s])
  qed
qed

lemma prefix_collapse:
  assumes "\<forall>c \<in> set P. \<not> isWhite c"
  shows "prefix P (collapse s) \<longleftrightarrow> prefix P s"
  using assms
proof (induction P arbitrary: s)
  case Nil
  then show ?case by simp
next
  case (Cons p P)
  have sp: "isWhite SP" by (simp add: isWhite_def SP_def)
  show ?case
  proof (cases s)
    case Nil
    then show ?thesis by simp
  next
    case (Cons c cs)
    show ?thesis
    proof (cases "isWhite c")
      case True
      with Cons.prems sp have "p \<noteq> c" "p \<noteq> SP" by auto
      with Cons show ?thesis by simp
    next
      case False
      with Cons Cons.IH [of cs] Cons.prems show ?thesis by simp
    qed
  qed
qed

lemma sublist_white_Cons:
  assumes "\<forall>c \<in> set P. \<not> isWhite c" "P \<noteq> []" "isWhite w"
  shows "sublist P (w # s) \<longleftrightarrow> sublist P s"
proof -
  from assms have "hd P \<noteq> w" by (cases P) auto
  with assms(2) have "\<not> prefix P (w # s)" by (cases P) auto
  then show ?thesis by (simp add: sublist_Cons_right)
qed

lemma sublist_blank_append:
  assumes "\<forall>c \<in> set P. \<not> isWhite c" "P \<noteq> []" "blank w"
  shows "sublist P (w @ s) \<longleftrightarrow> sublist P s"
  using assms(3) by (induction w) (simp_all add: sublist_white_Cons [OF assms(1,2)])

lemma sublist_dropWhile_white:
  assumes "\<forall>c \<in> set P. \<not> isWhite c" "P \<noteq> []"
  shows "sublist P (dropWhile isWhite s) \<longleftrightarrow> sublist P s"
  by (induction s) (simp_all add: sublist_white_Cons [OF assms])

lemma sublist_collapse:
  assumes "\<forall>c \<in> set P. \<not> isWhite c" "P \<noteq> []"
  shows "sublist P (collapse s) \<longleftrightarrow> sublist P s"
proof (induction s rule: collapse.induct)
  case 1
  then show ?case by simp
next
  case (2 c cs)
  have sp: "isWhite SP" by (simp add: isWhite_def SP_def)
  show ?case
  proof (cases "isWhite c \<and> takeWhile isWhite cs \<noteq> []")
    case True
    from True have ce: "collapse (c # cs) = SP # collapse (dropWhile isWhite cs)" by simp
    have "sublist P (collapse (c # cs)) \<longleftrightarrow> sublist P (collapse (dropWhile isWhite cs))"
      unfolding ce by (rule sublist_white_Cons [OF assms sp])
    also have "\<dots> \<longleftrightarrow> sublist P (dropWhile isWhite cs)" using "2.IH"(1) [OF True] .
    also have "\<dots> \<longleftrightarrow> sublist P cs" by (rule sublist_dropWhile_white [OF assms])
    also have "\<dots> \<longleftrightarrow> sublist P (c # cs)" using True by (simp add: sublist_white_Cons [OF assms])
    finally show ?thesis .
  next
    case False
    from False have ce: "collapse (c # cs) = c # collapse cs" by auto
    have "sublist P (collapse (c # cs)) \<longleftrightarrow> prefix P (collapse (c # cs)) \<or> sublist P (collapse cs)"
      unfolding ce by (simp add: sublist_Cons_right)
    also have "\<dots> \<longleftrightarrow> prefix P (c # cs) \<or> sublist P cs"
      unfolding "2.IH"(2) [OF False] prefix_collapse [OF assms(1)] ..
    also have "\<dots> \<longleftrightarrow> sublist P (c # cs)" by (simp add: sublist_Cons_right)
    finally show ?thesis .
  qed
qed

lemma sublist_trim:
  assumes "\<forall>c \<in> set P. \<not> isWhite c" "P \<noteq> []"
  shows "sublist P (trim s) \<longleftrightarrow> sublist P s"
proof -
  from trim_decomp [of s] obtain w1 w2 where w: "blank w1" "blank w2" "s = w1 @ trim s @ w2"
    by blast
  have rP: "\<forall>c \<in> set (rev P). \<not> isWhite c" "rev P \<noteq> []" using assms by simp_all
  have "sublist P s \<longleftrightarrow> sublist P (trim s @ w2)"
    using sublist_blank_append [OF assms w(1), of "trim s @ w2"] w(3) by simp
  also have "\<dots> \<longleftrightarrow> sublist (rev P) (rev w2 @ rev (trim s))"
    using sublist_rev [of P "trim s @ w2"] by simp
  also have "\<dots> \<longleftrightarrow> sublist (rev P) (rev (trim s))"
    using w(2) by (intro sublist_blank_append [OF rP]) (simp add: blank_def)
  also have "\<dots> \<longleftrightarrow> sublist P (trim s)" by simp
  finally show ?thesis by simp
qed

lemma ref_opening_plain: "\<forall>c \<in> set (BS # ''ref{''). \<not> isWhite c" "BS # ''ref{'' \<noteq> []"
  by (simp_all add: isWhite_def BS_def)

lemma display_text_ref_opening:
  "sublist (BS # ''ref{'') (display_text t) \<longleftrightarrow> sublist (BS # ''ref{'') t"
proof (cases "trim (collapse t) = []")
  case True
  have "\<not> sublist (BS # ''ref{'') ''(untitled)''" by code_simp
  moreover have "\<not> sublist (BS # ''ref{'') t"
    using sublist_trim [OF ref_opening_plain, of "collapse t"] sublist_collapse [OF ref_opening_plain, of t]
      True by simp
  ultimately show ?thesis using True by (simp add: display_text_def)
next
  case False
  then show ?thesis
    using sublist_trim [OF ref_opening_plain, of "collapse t"] sublist_collapse [OF ref_opening_plain, of t]
    by (simp add: display_text_def)
qed


text \<open>
  Claim C5, as amended.  After a parse the label map sends a label to the identity of the
  node of the last line that declares it.  For every line that is not blank the tree has
  its node, and with the one reading of the text left by the five single directives as
  reference directives: the references of the node are the trimmed payloads of the
  directives in their order from left to right, and the display text is the normalised
  text in front of, between and behind them.  So a node whose line has \<^verbatim>\<open>\ref{x}\<close> has \<^verbatim>\<open>x\<close>
  among its references, where \<^verbatim>\<open>\label{x}\<close> on the last line that declares \<^verbatim>\<open>x\<close> gives the
  map entry.  The display text has \<^verbatim>\<open>\ref{\<close> in it exactly when the text in front of, between
  and behind the directives, put together, has: what is not a whole directive, or becomes
  one only when a directive inside it is removed, stays, and nothing else does.
\<close>

theorem references_collected:
  assumes "parseText input = Inr (r, m)"
  shows "(\<forall>l t. m l = Some t \<longleftrightarrow>
            (\<exists>i. declares (input_lines input) i l \<and> t = ''n_'' @ show_nat i \<and>
                 (\<forall>j. i < j \<longrightarrow> \<not> declares (input_lines input) j l))) \<and>
         (\<forall>i < length (input_lines input). trim (input_lines input ! i) \<noteq> [] \<longrightarrow>
            (\<exists>x n segs final.
               node_at r x = Some n \<and> id' (info n) = ''n_'' @ show_nat i \<and>
               label (info n) = label (info (make_node i (input_lines input ! i))) \<and>
               ref_scan (text_at_refs (input_lines input ! i)) segs final \<and>
               refs (info n) = map (\<lambda>(pre, m0, m1). trim m1) segs \<and>
               text' (info n) = display_text (concat (map (\<lambda>(pre, m0, m1). pre) segs) @ final) \<and>
               (sublist (BS # ''ref{'') (text' (info n)) \<longleftrightarrow>
                  sublist (BS # ''ref{'') (concat (map (\<lambda>(pre, m0, m1). pre) segs) @ final)))) \<and>
         (\<forall>t segs final segs' final'.
            ref_scan t segs final \<longrightarrow> ref_scan t segs' final' \<longrightarrow> segs' = segs \<and> final' = final)"
proof -
  let ?ls = "input_lines input"
  from parse_nodes [OF assms] obtain st where
    st: "parse_lines (enumerate 0 ?ls) initial_state = Inr st" and ok: "state_ok ?ls st"
    and r: "r = applyColor (root st) None" and m: "m = labelToId st" by blast
  have 1: "\<forall>l t. m l = Some t \<longleftrightarrow>
            (\<exists>i. declares ?ls i l \<and> t = ''n_'' @ show_nat i \<and> (\<forall>j. i < j \<longrightarrow> \<not> declares ?ls j l))"
    unfolding m using labelToId_last_declaration [OF st] by blast
  have 2: "\<forall>i < length ?ls. trim (?ls ! i) \<noteq> [] \<longrightarrow>
            (\<exists>x n segs final.
               node_at r x = Some n \<and> id' (info n) = ''n_'' @ show_nat i \<and>
               label (info n) = label (info (make_node i (?ls ! i))) \<and>
               ref_scan (text_at_refs (?ls ! i)) segs final \<and>
               refs (info n) = map (\<lambda>(pre, m0, m1). trim m1) segs \<and>
               text' (info n) = display_text (concat (map (\<lambda>(pre, m0, m1). pre) segs) @ final) \<and>
               (sublist (BS # ''ref{'') (text' (info n)) \<longleftrightarrow>
                  sublist (BS # ''ref{'') (concat (map (\<lambda>(pre, m0, m1). pre) segs) @ final)))"
  proof (intro allI impI)
    fix i assume i: "i < length ?ls" "trim (?ls ! i) \<noteq> []"
    let ?raw = "?ls ! i"
    let ?segs = "ref_matches (text_at_refs ?raw)"
    let ?final = "ref_rest (text_at_refs ?raw)"
    from ok i obtain x where "info_at (root st) x = Some (info (make_node i ?raw))"
      unfolding state_ok_def by blast
    then obtain n0 where n0: "node_at (root st) x = Some n0" "info n0 = info (make_node i ?raw)"
      by (auto simp: info_at_def)
    define n where "n = applyColor n0 (inherited_at None (root st) x)"
    have n: "node_at r x = Some n" unfolding r n_def node_at_applyColor using n0(1) by simp
    have f: "id' (info n) = ''n_'' @ show_nat i"
      "label (info n) = label (info (make_node i ?raw))"
      "refs (info n) = refs (info (make_node i ?raw))"
      "text' (info n) = text' (info (make_node i ?raw))"
      unfolding n_def by (simp_all add: applyColor_sel n0(2) make_node_simps)
    have a: "ref_scan (text_at_refs ?raw) ?segs ?final" by (rule ref_scan_total)
    have b: "refs (info n) = map (\<lambda>(pre, m0, m1). trim m1) ?segs"
      unfolding f(3) by (simp add: make_node_eq)
    have c: "text' (info n) = display_text (concat (map (\<lambda>(pre, m0, m1). pre) ?segs) @ ?final)"
      unfolding f(4) by (simp add: make_node_eq remove_refs_scan)
    have d: "sublist (BS # ''ref{'') (text' (info n)) \<longleftrightarrow>
                  sublist (BS # ''ref{'') (concat (map (\<lambda>(pre, m0, m1). pre) ?segs) @ ?final)"
      unfolding c by (rule display_text_ref_opening)
    from n f(1,2) a b c d
    show "\<exists>x n segs final.
               node_at r x = Some n \<and> id' (info n) = ''n_'' @ show_nat i \<and>
               label (info n) = label (info (make_node i (?ls ! i))) \<and>
               ref_scan (text_at_refs (?ls ! i)) segs final \<and>
               refs (info n) = map (\<lambda>(pre, m0, m1). trim m1) segs \<and>
               text' (info n) = display_text (concat (map (\<lambda>(pre, m0, m1). pre) segs) @ final) \<and>
               (sublist (BS # ''ref{'') (text' (info n)) \<longleftrightarrow>
                  sublist (BS # ''ref{'') (concat (map (\<lambda>(pre, m0, m1). pre) segs) @ final))"
      by (intro exI [of _ x] exI [of _ n] exI [of _ ?segs] exI [of _ ?final] conjI)
  qed
  have 3: "\<forall>t segs final segs' final'.
            ref_scan t segs final \<longrightarrow> ref_scan t segs' final' \<longrightarrow> segs' = segs \<and> final' = final"
    using ref_scan_unique by blast
  from 1 2 3 show ?thesis by (intro conjI)
qed


theorem references_collected_witness:
  "\<exists>r m x n.
     parseText ((''node '' @ BS # ''label{apple}'') @ [LF] @
                (''see C:'' @ BS # ''dir '' @ BS # ''ref{apple} here'')) = Inr (r, m) \<and>
     m ''apple'' = Some ''n_0'' \<and>
     node_at r x = Some n \<and> id' (info n) = ''n_1'' \<and>
     refs (info n) = [''apple''] \<and> text' (info n) = ''see C:'' @ BS # ''dir here'' \<and>
     \<not> sublist (BS # ''ref{'') (text' (info n))"
proof -
  let ?l0 = "''node '' @ BS # ''label{apple}''"
  let ?l1 = "''see C:'' @ BS # ''dir '' @ BS # ''ref{apple} here''"
  let ?input = "?l0 @ [LF] @ ?l1"
  from parseText_returns [of ?input] obtain r m where pt: "parseText ?input = Inr (r, m)" by blast
  have ls: "input_lines ?input = [?l0, ?l1]" by code_simp
  note T = references_collected [OF pt, unfolded ls]
  have d0: "declares [?l0, ?l1] 0 ''apple''" by code_simp
  have d1: "\<not> declares [?l0, ?l1] 1 ''apple''" by code_simp
  have later: "\<forall>j. 0 < j \<longrightarrow> \<not> declares [?l0, ?l1] j ''apple''"
  proof (intro allI impI)
    fix j :: nat assume "0 < j"
    then have "j = 1 \<or> 2 \<le> j" by auto
    then show "\<not> declares [?l0, ?l1] j ''apple''"
    proof
      assume "j = 1"
      with d1 show ?thesis by simp
    next
      assume "2 \<le> j"
      then show ?thesis by (simp add: declares_def)
    qed
  qed
  have n0: "''n_'' @ show_nat 0 = ''n_0''" by code_simp
  have n1: "''n_'' @ show_nat 1 = ''n_1''" by code_simp
  from T [THEN conjunct1, rule_format, of "''apple''" "''n_0''"] d0 later n0
  have lab: "m ''apple'' = Some ''n_0''" by metis
  have nb: "trim ([?l0, ?l1] ! 1) \<noteq> []" by code_simp
  have "(1::nat) < length [?l0, ?l1]" by simp
  from T [THEN conjunct2, THEN conjunct1, rule_format, OF this nb]
  obtain x n segs final where
    n: "node_at r x = Some n" "id' (info n) = ''n_'' @ show_nat 1"
    and sc: "ref_scan (text_at_refs ([?l0, ?l1] ! 1)) segs final"
    and rf: "refs (info n) = map (\<lambda>(pre, m0, m1). trim m1) segs"
    and tx: "text' (info n) = display_text (concat (map (\<lambda>(pre, m0, m1). pre) segs) @ final)"
    and nr: "sublist (BS # ''ref{'') (text' (info n)) \<longleftrightarrow>
               sublist (BS # ''ref{'') (concat (map (\<lambda>(pre, m0, m1). pre) segs) @ final)"
    by blast
  from ref_scan_unique [OF sc]
  have sf: "segs = ref_matches (text_at_refs ([?l0, ?l1] ! 1))"
    "final = ref_rest (text_at_refs ([?l0, ?l1] ! 1))" by simp_all
  have e1: "map (\<lambda>(pre, m0, m1). trim m1) (ref_matches (text_at_refs ([?l0, ?l1] ! 1))) = [''apple'']"
    by code_simp
  have e2: "concat (map (\<lambda>(pre, m0, m1). pre) (ref_matches (text_at_refs ([?l0, ?l1] ! 1)))) @
        ref_rest (text_at_refs ([?l0, ?l1] ! 1)) = ''see C:'' @ BS # ''dir  here''"
    by code_simp
  have e3: "display_text (''see C:'' @ BS # ''dir  here'') = ''see C:'' @ BS # ''dir here''"
    by code_simp
  have e4: "\<not> sublist (BS # ''ref{'') (''see C:'' @ BS # ''dir  here'')" by code_simp
  have a: "refs (info n) = [''apple'']" unfolding rf sf e1 ..
  have b: "text' (info n) = ''see C:'' @ BS # ''dir here''" unfolding tx sf e2 e3 ..
  have c: "\<not> sublist (BS # ''ref{'') (text' (info n))"
    using nr [unfolded sf e2] e4 by blast
  from pt lab n(1) n(2) [unfolded n1] a b c show ?thesis
    by - (intro exI [of _ r] exI [of _ m] exI [of _ x] exI [of _ n] conjI; assumption)
qed

text \<open>
  The line \<^verbatim>\<open>use \ref{apple} \ref{\<close>, where another line has \<^verbatim>\<open>\label{apple}\<close>: the reference
  is collected and the display text ends in \<^verbatim>\<open>\ref{\<close>.  In \<^verbatim>\<open>x \re\ref{apple}f{b}\<close> the
  removal leaves the whole directive \<^verbatim>\<open>\ref{b}\<close> in the display text.
\<close>

theorem residual_ref_counterexample:
  "label (info (make_node 0 (''node '' @ BS # ''label{apple}''))) = Some ''apple'' \<and>
   refs (info (make_node 1 (''use '' @ BS # ''ref{apple} '' @ BS # ''ref{''))) = [''apple''] \<and>
   text' (info (make_node 1 (''use '' @ BS # ''ref{apple} '' @ BS # ''ref{''))) =
     ''use '' @ BS # ''ref{'' \<and>
   sublist (BS # ''ref{'') (text' (info (make_node 1 (''use '' @ BS # ''ref{apple} '' @ BS # ''ref{'')))) \<and>
   refs (info (make_node 1 (''x '' @ BS # ''re'' @ BS # ''ref{apple}f{b}''))) = [''apple''] \<and>
   text' (info (make_node 1 (''x '' @ BS # ''re'' @ BS # ''ref{apple}f{b}''))) =
     ''x '' @ BS # ''ref{b}''"
  by code_simp

section \<open>The limits of the engine (C1)\<close>

text \<open>
  Two calls of \<^verbatim>\<open>parseText\<close> take more of the call stack the larger the input is: the calls
  of \<^verbatim>\<open>applyColor\<close>, which lie inside one another as deep as the tree is high, and the call
  \<^verbatim>\<open>tags.push(...arr)\<close>, which passes every tag of a tags directive as an argument of its
  own.  An engine throws \<^verbatim>\<open>RangeError\<close> at a call for which its stack has no room, and
  \<^verbatim>\<open>parseText\<close> catches nothing.  How much room there is belongs to the engine and not to
  the program, so it is a parameter here: \<open>max_call_depth\<close> is the number of calls of
  \<^verbatim>\<open>applyColor\<close> that can be open at once when \<^verbatim>\<open>parseText\<close> calls it on the root, and
  \<open>max_arguments\<close> is the number of arguments that the spread call can pass.
\<close>

record engine =
  max_call_depth :: nat
  max_arguments :: nat

text \<open>
  \<^verbatim>\<open>applyColor\<close> where the stack has room for \<open>room\<close> more calls of it inside one another.
  \<^verbatim>\<open>forEach\<close> calls it on the children in turn, each with the room that is left inside the
  call of the parent; the first exception ends the loop and the call.
\<close>

fun applyColor_call :: "nat \<Rightarrow> RawNode \<Rightarrow> color_value option \<Rightarrow> error + RawNode"
  and applyColor_forEach :: "nat \<Rightarrow> RawNode list \<Rightarrow> color_value option \<Rightarrow> error + RawNode list" where
  "applyColor_call room (RawNode f cs) inherited =
     (if room = 0 then Inl RangeError
      else (let cur = (case color f of None \<Rightarrow> inherited | Some c \<Rightarrow> Some c)
            in case applyColor_forEach (room - 1) cs cur of
                 Inl e \<Rightarrow> Inl e
               | Inr cs' \<Rightarrow> Inr (RawNode (f\<lparr>effectiveColor := cur\<rparr>) cs')))"
| "applyColor_forEach room [] cur = Inr []"
| "applyColor_forEach room (c # cs) cur =
     (case applyColor_call room c cur of
        Inl e \<Rightarrow> Inl e
      | Inr c' \<Rightarrow>
          (case applyColor_forEach room cs cur of
             Inl e \<Rightarrow> Inl e
           | Inr cs' \<Rightarrow> Inr (c' # cs')))"

text \<open>
  The callback of \<^verbatim>\<open>lines.forEach\<close> on an engine.  The spread call comes before anything is
  done to the tree or the stack, and its arguments are the tags of the tags directive
  (\<open>declared_tags\<close>, the front part of the tags of the node, see \<open>make_node_eq\<close>); what the
  callback does otherwise is \<open>parse_line\<close>.
\<close>

definition parse_line_run :: "engine \<Rightarrow> nat \<Rightarrow> string \<Rightarrow> parse_state \<Rightarrow> error + parse_state" where
  "parse_line_run eng idx raw st =
     (if trim raw = [] then Inr st
      else if max_arguments eng < length (declared_tags raw) then Inl RangeError
      else parse_line idx raw st)"

fun parse_lines_run :: "engine \<Rightarrow> (nat \<times> string) list \<Rightarrow> parse_state \<Rightarrow> error + parse_state" where
  "parse_lines_run eng [] st = Inr st"
| "parse_lines_run eng ((idx, raw) # ls) st =
     (case parse_line_run eng idx raw st of
        Inl e \<Rightarrow> Inl e
      | Inr st' \<Rightarrow> parse_lines_run eng ls st')"

text \<open>\<^verbatim>\<open>parseText\<close> on an engine.\<close>

definition parseText_run :: "engine \<Rightarrow> string \<Rightarrow> error + RawNode \<times> (string \<rightharpoonup> string)" where
  "parseText_run eng input =
     (let lines = split_lines (normalize_newlines input)
      in case parse_lines_run eng (enumerate 0 lines) initial_state of
           Inl e \<Rightarrow> Inl e
         | Inr st \<Rightarrow>
             (case applyColor_call (max_call_depth eng) (root st) None of
                Inl e \<Rightarrow> Inl e
              | Inr r \<Rightarrow> Inr (r, labelToId st)))"

text \<open>
  \<open>height\<close> is the number of nodes on the longest way down a tree, and \<open>built_tree ls\<close> the
  tree that the line loop builds from the lines \<open>ls\<close>; the loop ends in a state for every
  list of lines (\<open>parse_lines_ok\<close>).  \<open>within_limits eng input\<close> says that
  the input stays within the limits of the engine: no line that is not blank has more tags
  in its tags directive than a call takes arguments, and the tree built is no higher than
  calls of \<^verbatim>\<open>applyColor\<close> can lie inside one another.  \<open>deep_outline n\<close> is the outline of
  \<open>n + 1\<close> lines each of which is indented by one TAB more than the line before it, and
  \<open>chain_lines n\<close> are the first \<open>n\<close> lines of such an outline.
\<close>

fun height :: "RawNode \<Rightarrow> nat" where
  "height (RawNode f cs) = Suc (foldr max (map height cs) 0)"

definition tags_fit :: "engine \<Rightarrow> string list \<Rightarrow> bool" where
  "tags_fit eng ls \<longleftrightarrow>
     list_all (\<lambda>raw. trim raw \<noteq> [] \<longrightarrow> length (declared_tags raw) \<le> max_arguments eng) ls"

definition built_tree :: "string list \<Rightarrow> RawNode" where
  "built_tree ls =
     (case parse_lines (enumerate 0 ls) initial_state of Inl e \<Rightarrow> root_node | Inr st \<Rightarrow> root st)"

definition within_limits :: "engine \<Rightarrow> string \<Rightarrow> bool" where
  "within_limits eng input \<longleftrightarrow>
     tags_fit eng (input_lines input) \<and> height (built_tree (input_lines input)) \<le> max_call_depth eng"

definition deep_outline :: "nat \<Rightarrow> string" where
  "deep_outline n = concat (map (\<lambda>k. (replicate k TAB @ ''x'') @ [LF]) [0..<Suc n])"

definition chain_lines :: "nat \<Rightarrow> string list" where
  "chain_lines n = map (\<lambda>k. replicate k TAB @ ''x'') [0..<n]"

lemma foldr_max_le: "foldr max xs (0::nat) \<le> b \<longleftrightarrow> (\<forall>x \<in> set xs. x \<le> b)"
  by (induction xs) auto

lemma height_le: "height n \<le> Suc b \<longleftrightarrow> (\<forall>c \<in> set (children n). height c \<le> b)"
  by (cases n) (simp add: foldr_max_le)

lemma height_pos: "0 < height n"
  by (cases n) simp

lemma applyColor_call_eq:
  "applyColor_call room n inh = (if height n \<le> room then Inr (applyColor n inh) else Inl RangeError)"
  "applyColor_forEach room cs cur =
     (if \<forall>c \<in> set cs. height c \<le> room then Inr (map (\<lambda>c. applyColor c cur) cs) else Inl RangeError)"
proof (induction room n inh and room cs cur rule: applyColor_call_applyColor_forEach.induct)
  case (1 room f cs inherited)
  show ?case
  proof (cases room)
    case 0
    then show ?thesis by simp
  next
    case (Suc k)
    with 1 show ?thesis by (simp add: Let_def foldr_max_le)
  qed
next
  case (2 room cur)
  then show ?case by simp
next
  case (3 room c cs cur)
  then show ?case by (simp split: sum.splits)
qed

lemma parse_lines_run_eq:
  "parse_lines ls st = Inr st' \<Longrightarrow>
   parse_lines_run eng ls st =
     (if list_all (\<lambda>(idx, raw). trim raw \<noteq> [] \<longrightarrow> length (declared_tags raw) \<le> max_arguments eng) ls
      then Inr st' else Inl RangeError)"
proof (induction ls arbitrary: st)
  case Nil
  then show ?case by simp
next
  case (Cons a ls)
  obtain idx raw where a: "a = (idx, raw)" by (cases a)
  from Cons.prems a obtain st1 where st1: "parse_line idx raw st = Inr st1"
    "parse_lines ls st1 = Inr st'" by (auto split: sum.splits)
  show ?case
  proof (cases "trim raw = []")
    case True
    then have "parse_line idx raw st = Inr st" by (simp add: parse_line_def)
    with st1 have "st1 = st" by simp
    with True a Cons.IH [OF st1(2)] show ?thesis by (simp add: parse_line_run_def)
  next
    case False
    with a st1(1) Cons.IH [OF st1(2)] show ?thesis by (simp add: parse_line_run_def)
  qed
qed

lemma list_all_enumerate: "list_all (\<lambda>(idx, raw). P raw) (enumerate k ls) = list_all P ls"
  by (induction ls arbitrary: k) simp_all

lemma parseText_run_eq:
  "parseText_run eng input = (if within_limits eng input then parseText input else Inl RangeError)"
proof -
  let ?ls = "input_lines input"
  from parseText_eq [of input] obtain st where
    st: "parse_lines (enumerate 0 ?ls) initial_state = Inr st"
    and pt: "parseText input = Inr (applyColor (root st) None, labelToId st)" by blast
  have bt: "built_tree ?ls = root st" by (simp add: built_tree_def st)
  have run: "parse_lines_run eng (enumerate 0 ?ls) initial_state =
      (if tags_fit eng ?ls then Inr st else Inl RangeError)"
    unfolding parse_lines_run_eq [OF st] list_all_enumerate tags_fit_def ..
  show ?thesis
    unfolding parseText_run_def within_limits_def bt pt
    using run by (simp add: input_lines_def Let_def applyColor_call_eq)
qed


lemma normalize_newlines_id: "CR \<notin> set s \<Longrightarrow> normalize_newlines s = s"
  by (induction s rule: normalize_newlines.induct) auto

lemma split_lines_line: "LF \<notin> set l \<Longrightarrow> split_lines (l @ LF # s) = l # split_lines s"
  by (induction l) auto

lemma split_lines_concat:
  "\<forall>l \<in> set ls. LF \<notin> set l \<Longrightarrow> split_lines (concat (map (\<lambda>l. l @ [LF]) ls)) = ls @ [[]]"
  by (induction ls) (simp_all add: split_lines_line)

lemma input_lines_deep_outline: "input_lines (deep_outline n) = chain_lines (Suc n) @ [[]]"
proof -
  have eq: "deep_outline n = concat (map (\<lambda>l. l @ [LF]) (chain_lines (Suc n)))"
    unfolding deep_outline_def chain_lines_def map_map comp_def ..
  have "CR \<notin> set (deep_outline n)"
    unfolding deep_outline_def by (auto simp: CR_def TAB_def LF_def)
  then have "input_lines (deep_outline n) = split_lines (deep_outline n)"
    by (simp add: input_lines_def normalize_newlines_id)
  also have "\<dots> = chain_lines (Suc n) @ [[]]"
    unfolding eq by (rule split_lines_concat) (auto simp: chain_lines_def LF_def TAB_def)
  finally show ?thesis .
qed

lemma chain_line:
  "trim (replicate k TAB @ ''x'') \<noteq> []" "fst (getDepth (replicate k TAB @ ''x'')) = k"
  "declared_tags (replicate k TAB @ ''x'') = []"
proof -
  have ind: "indent (replicate k TAB @ ''x'') = (k, ''x'')"
  proof (induction k)
    case 0
    then show ?case by (simp add: TAB_def)
  next
    case (Suc k)
    then show ?case by (simp add: indent_TAB)
  qed
  then show "fst (getDepth (replicate k TAB @ ''x'')) = k" by (simp add: getDepth_indent)
  have "blank (replicate k TAB)" by (simp add: blank_def isWhite_def TAB_def)
  from trim_pad [OF this, of "[]" "''x''"] have "trim (replicate k TAB @ ''x'') = trim ''x''"
    by simp
  also have "\<dots> = ''x''" by code_simp
  finally show "trim (replicate k TAB @ ''x'') \<noteq> []" by simp
  have "snd (getDepth ''x'') = ''x''" by code_simp
  with ind have "text_at_color (replicate k TAB @ ''x'') = text_at_color ''x''"
    by (simp add: text_at_color_def getDepth_indent)
  then have "declared_tags (replicate k TAB @ ''x'') = declared_tags ''x''"
    by (simp add: declared_tags_def text_at_tags_def text_at_jp_def text_at_pos_def
        text_at_label_def)
  also have "\<dots> = []" by code_simp
  finally show "declared_tags (replicate k TAB @ ''x'') = []" .
qed

lemma node_at_height: "node_at r x = Some n \<Longrightarrow> length x < height r"
proof (induction r x rule: node_at.induct)
  case (1 r)
  then show ?case by (simp add: height_pos)
next
  case (2 r i p)
  from "2.prems" have i: "i < length (children r)" and at: "node_at (children r ! i) p = Some n"
    by (simp_all split: if_splits)
  from "2.IH" [OF i at] have "length p < height (children r ! i)" .
  moreover have "height (children r ! i) \<le> height r - 1"
    using height_le [of r "height r - 1"] height_pos [of r] i by simp
  ultimately show ?case by simp
qed

lemma height_bound:
  "(\<And>x n. node_at r x = Some n \<Longrightarrow> length x < b) \<Longrightarrow> height r \<le> b"
proof (induction r arbitrary: b)
  case (RawNode f cs)
  from RawNode.prems [of "[]"] obtain b' where b: "b = Suc b'" by (cases b) auto
  have "\<forall>c \<in> set cs. height c \<le> b'"
  proof
    fix c assume c: "c \<in> set cs"
    then obtain i where i: "i < length cs" "c = cs ! i" by (metis in_set_conv_nth)
    have "\<And>x n. node_at c x = Some n \<Longrightarrow> length x < b'"
    proof -
      fix x n assume "node_at c x = Some n"
      with i have "node_at (RawNode f cs) (i # x) = Some n" by simp
      from RawNode.prems [OF this] b show "length x < b'" by simp
    qed
    from RawNode.IH [OF c this] show "height c \<le> b'" .
  qed
  then show ?case unfolding b by (simp add: foldr_max_le)
qed

lemma state_ok_level:
  assumes ok: "state_ok ls st"
  shows "info_at (root st) x = Some y \<Longrightarrow> int (length x) \<le> depth y + 1"
proof (induction x arbitrary: y rule: rev_induct)
  case Nil
  with ok have "y = info root_node" by (simp add: state_ok_def)
  then show ?case by (simp add: root_node_simps)
next
  case (snoc j x)
  from info_at_prefix [OF snoc.prems] obtain g where g: "info_at (root st) x = Some g" by blast
  from ok snoc.prems g have "depth g < depth y" unfolding state_ok_def by blast
  with snoc.IH [OF g] show ?case by simp
qed

lemma chain_parse:
  "\<exists>st. parse_lines (enumerate 0 (chain_lines n)) initial_state = Inr st \<and>
        state_ok (chain_lines n) st \<and>
        (\<forall>x y. info_at (root st) x = Some y \<longrightarrow> int (length x) = line y + 1)"
proof (induction n)
  case 0
  have "state_ok [] initial_state" by (rule state_ok_initial)
  moreover have "\<forall>x y. info_at (root initial_state) x = Some y \<longrightarrow> int (length x) = line y + 1"
    by (simp add: initial_state_def info_at_root_node root_node_simps)
  ultimately show ?case by (simp add: chain_lines_def)
next
  case (Suc n)
  let ?ls = "chain_lines n"
  let ?raw = "replicate n TAB @ ''x''"
  have ls: "chain_lines (Suc n) = ?ls @ [?raw]" "length ?ls = n" by (simp_all add: chain_lines_def)
  from Suc obtain st where st: "parse_lines (enumerate 0 ?ls) initial_state = Inr st"
    and ok: "state_ok ?ls st"
    and lev: "\<forall>x y. info_at (root st) x = Some y \<longrightarrow> int (length x) = line y + 1" by blast
  let ?node = "make_node n ?raw"
  have d: "depth (info ?node) = int n" "line (info ?node) = int n" "children ?node = []"
    by (simp_all add: make_node_simps chain_line)
  from parse_line_step [OF ok chain_line(1) [of n], unfolded ls(2)] obtain p ps parent where
    parent: "node_at (root st) p = Some parent" "depth (info parent) < depth (info ?node)"
    and recent: "\<forall>x y. info_at (root st) x = Some y \<longrightarrow> depth y < depth (info ?node) \<longrightarrow>
                  line y \<le> line (info parent)"
    and pl: "parse_line n ?raw st =
             Inr \<lparr>root = push_child p ?node (root st),
                  stack = (p @ [length (children parent)]) # p # ps,
                  labelToId = set_label ?node (labelToId st)\<rparr>"
    and ok': "state_ok (?ls @ [?raw])
             \<lparr>root = push_child p ?node (root st),
              stack = (p @ [length (children parent)]) # p # ps,
              labelToId = set_label ?node (labelToId st)\<rparr>"
    by blast
  let ?st' = "\<lparr>root = push_child p ?node (root st),
              stack = (p @ [length (children parent)]) # p # ps,
              labelToId = set_label ?node (labelToId st)\<rparr>"
  from parent(1) have ip: "info_at (root st) p = Some (info parent)" by (simp add: info_at_def)
  from state_ok_line_bound [OF ok ip] ls(2) have up: "line (info parent) < int n" by simp
  have low: "int n - 1 \<le> line (info parent)"
  proof (cases n)
    case 0
    from lev ip have "int (length p) = line (info parent) + 1" by blast
    with 0 show ?thesis by simp
  next
    case (Suc k)
    have k: "k < length ?ls" unfolding ls(2) using Suc by simp
    have nb: "trim (?ls ! k) \<noteq> []" using k by (simp add: chain_lines_def chain_line)
    from ok k nb obtain x where x: "info_at (root st) x = Some (info (make_node k (?ls ! k)))"
      unfolding state_ok_def by blast
    have "depth (info (make_node k (?ls ! k))) = int k" "line (info (make_node k (?ls ! k))) = int k"
      using k by (simp_all add: make_node_simps chain_lines_def chain_line)
    with recent x d(1) Suc show ?thesis by force
  qed
  from lev ip up low have lp: "length p = n" by force
  have "\<forall>x y. info_at (root ?st') x = Some y \<longrightarrow> int (length x) = line y + 1"
  proof (intro allI impI)
    fix x y assume y: "info_at (root ?st') x = Some y"
    show "int (length x) = line y + 1"
    proof (cases "x = p @ [length (children parent)]")
      case True
      with y info_at_push_child [OF parent(1) d(3), of x] have "y = info ?node" by simp
      with True lp d(2) show ?thesis by simp
    next
      case False
      with y info_at_push_child [OF parent(1) d(3), of x] have "info_at (root st) x = Some y" by simp
      with lev show ?thesis by blast
    qed
  qed
  moreover have "parse_lines (enumerate 0 (chain_lines (Suc n))) initial_state = Inr ?st'"
    unfolding ls(1) parse_lines_snoc st ls(2) using pl by simp
  ultimately show ?case using ok' unfolding ls(1) by blast
qed

lemma height_deep_outline: "Suc n < height (built_tree (input_lines (deep_outline n)))"
proof -
  let ?ls = "chain_lines (Suc n)"
  from chain_parse [of "Suc n"] obtain st where
    st: "parse_lines (enumerate 0 ?ls) initial_state = Inr st" and ok: "state_ok ?ls st"
    and lev: "\<forall>x y. info_at (root st) x = Some y \<longrightarrow> int (length x) = line y + 1" by blast
  have len: "length ?ls = Suc n" by (simp add: chain_lines_def)
  have "parse_lines (enumerate 0 (?ls @ [[]])) initial_state = Inr st"
    unfolding parse_lines_snoc st by (simp add: parse_line_def trim_def)
  then have bt: "built_tree (input_lines (deep_outline n)) = root st"
    by (simp add: built_tree_def input_lines_deep_outline)
  have n: "n < length ?ls" by (simp add: len)
  have "?ls ! n = replicate n TAB @ ''x''" by (simp add: chain_lines_def nth_append)
  then have nb: "trim (?ls ! n) \<noteq> []" by (simp add: chain_line)
  from ok n nb obtain x where x: "info_at (root st) x = Some (info (make_node n (?ls ! n)))"
    unfolding state_ok_def by blast
  with lev have "int (length x) = line (info (make_node n (?ls ! n))) + 1" by blast
  then have "length x = Suc n" by (simp add: make_node_simps)
  moreover from x obtain nd where "node_at (root st) x = Some nd" by (auto simp: info_at_def)
  from node_at_height [OF this] have "length x < height (root st)" .
  ultimately show ?thesis unfolding bt by simp
qed

lemma deep_outline_throws: "parseText_run eng (deep_outline (max_call_depth eng)) = Inl RangeError"
  using height_deep_outline [of "max_call_depth eng"]
  by (simp add: parseText_run_eq within_limits_def)


lemma within_limits_indentation:
  assumes "0 < max_call_depth eng"
    and "\<forall>raw \<in> set (input_lines input). trim raw \<noteq> [] \<longrightarrow>
           fst (getDepth raw) + 2 \<le> max_call_depth eng \<and>
           length (declared_tags raw) \<le> max_arguments eng"
  shows "within_limits eng input"
proof -
  let ?ls = "input_lines input"
  from parse_lines_ok [of ?ls] obtain st where
    st: "parse_lines (enumerate 0 ?ls) initial_state = Inr st" and ok: "state_ok ?ls st" by blast
  have bt: "built_tree ?ls = root st" by (simp add: built_tree_def st)
  have "\<And>x n. node_at (root st) x = Some n \<Longrightarrow> length x < max_call_depth eng"
  proof -
    fix x n assume n: "node_at (root st) x = Some n"
    then have i: "info_at (root st) x = Some (info n)" by (simp add: info_at_def)
    show "length x < max_call_depth eng"
    proof (cases "x = []")
      case True
      with assms(1) show ?thesis by simp
    next
      case False
      with ok i obtain k where k: "k < length ?ls" "trim (?ls ! k) \<noteq> []"
        "info n = info (make_node k (?ls ! k))" unfolding state_ok_def by blast
      from k(1,2) assms(2) have "fst (getDepth (?ls ! k)) + 2 \<le> max_call_depth eng" by simp
      moreover from state_ok_level [OF ok i] k(3)
      have "length x \<le> fst (getDepth (?ls ! k)) + 1" by (simp add: make_node_simps)
      ultimately show ?thesis by simp
    qed
  qed
  from height_bound [OF this] have "height (root st) \<le> max_call_depth eng" .
  moreover from assms(2) have "tags_fit eng ?ls" by (simp add: tags_fit_def list_all_iff)
  ultimately show ?thesis by (simp add: within_limits_def bt)
qed

text \<open>
  Claim C1, as amended.  When the input stays within the limits of the engine,
  \<^verbatim>\<open>parseText\<close> returns a pair of a tree and a label map, the pair \<open>parseText input\<close>, and
  throws nothing: the stack of open nodes is never empty where its top is read.  The root
  of the tree is the implicit root, with the identity \<^verbatim>\<open>root\<close>, the depth \<open>-1\<close> and the line
  \<open>-1\<close>; every other node has another identity and a depth and a line from 0 on; and for
  every line that is not blank and has the depth 0, the node of that line is a child of
  the root.  When the input goes beyond the limits, \<^verbatim>\<open>parseText\<close> throws \<^verbatim>\<open>RangeError\<close>.
  The input stays within the limits whenever there is room for one call of \<^verbatim>\<open>applyColor\<close>
  and every line that is not blank has a depth of at most \<open>max_call_depth - 2\<close> and at
  most \<open>max_arguments\<close> tags in its tags directive.
\<close>

theorem parseText_within_limits:
  "(within_limits eng input \<longrightarrow>
      (\<exists>r m. parseText_run eng input = Inr (r, m) \<and> parseText input = Inr (r, m) \<and>
         id' (info r) = ''root'' \<and> depth (info r) = - 1 \<and> line (info r) = - 1 \<and>
         (\<forall>x n. node_at r x = Some n \<longrightarrow> x \<noteq> [] \<longrightarrow>
                0 \<le> depth (info n) \<and> 0 \<le> line (info n) \<and> id' (info n) \<noteq> ''root'') \<and>
         (\<forall>i < length (input_lines input).
            trim (input_lines input ! i) \<noteq> [] \<longrightarrow> fst (getDepth (input_lines input ! i)) = 0 \<longrightarrow>
            (\<exists>c \<in> set (children r).
               id' (info c) = ''n_'' @ show_nat i \<and> line (info c) = int i \<and> depth (info c) = 0)))) \<and>
   (\<not> within_limits eng input \<longrightarrow> parseText_run eng input = Inl RangeError) \<and>
   (0 < max_call_depth eng \<and>
    (\<forall>raw \<in> set (input_lines input). trim raw \<noteq> [] \<longrightarrow>
        fst (getDepth raw) + 2 \<le> max_call_depth eng \<and>
        length (declared_tags raw) \<le> max_arguments eng) \<longrightarrow>
    within_limits eng input)"
proof (intro conjI impI)
  assume "within_limits eng input"
  then have "parseText_run eng input = parseText input" by (simp add: parseText_run_eq)
  with parseText_root [of input]
  show "\<exists>r m. parseText_run eng input = Inr (r, m) \<and> parseText input = Inr (r, m) \<and>
         id' (info r) = ''root'' \<and> depth (info r) = - 1 \<and> line (info r) = - 1 \<and>
         (\<forall>x n. node_at r x = Some n \<longrightarrow> x \<noteq> [] \<longrightarrow>
                0 \<le> depth (info n) \<and> 0 \<le> line (info n) \<and> id' (info n) \<noteq> ''root'') \<and>
         (\<forall>i < length (input_lines input).
            trim (input_lines input ! i) \<noteq> [] \<longrightarrow> fst (getDepth (input_lines input ! i)) = 0 \<longrightarrow>
            (\<exists>c \<in> set (children r).
               id' (info c) = ''n_'' @ show_nat i \<and> line (info c) = int i \<and> depth (info c) = 0))"
    by simp
next
  assume "\<not> within_limits eng input"
  then show "parseText_run eng input = Inl RangeError" by (simp add: parseText_run_eq)
next
  assume "0 < max_call_depth eng \<and>
    (\<forall>raw \<in> set (input_lines input). trim raw \<noteq> [] \<longrightarrow>
        fst (getDepth raw) + 2 \<le> max_call_depth eng \<and>
        length (declared_tags raw) \<le> max_arguments eng)"
  then show "within_limits eng input" using within_limits_indentation by blast
qed

theorem parseText_within_limits_witness:
  "(\<exists>r m. parseText_run \<lparr>max_call_depth = 10000, max_arguments = 65535\<rparr> (''A'' @ [LF] @ ''  B'') =
            Inr (r, m) \<and>
     id' (info r) = ''root'' \<and> depth (info r) = - 1 \<and> line (info r) = - 1 \<and>
     (\<exists>c \<in> set (children r). id' (info c) = ''n_0'' \<and> line (info c) = 0 \<and> depth (info c) = 0)) \<and>
   parseText_run \<lparr>max_call_depth = 2, max_arguments = 8\<rparr> (''A'' @ [LF] @ ''  B'') =
     Inl RangeError"
proof -
  let ?input = "''A'' @ [LF] @ ''  B''"
  let ?eng = "\<lparr>max_call_depth = 10000, max_arguments = 65535\<rparr>"
  let ?small = "\<lparr>max_call_depth = 2, max_arguments = 8\<rparr>"
  have ls: "input_lines ?input = [''A'', ''  B'']" by code_simp
  have a: "trim ''A'' \<noteq> []" by code_simp
  have b: "fst (getDepth ''A'') = 0" "fst (getDepth ''  B'') = 1" by code_simp+
  have t: "declared_tags ''A'' = []" "declared_tags ''  B'' = []" by code_simp+
  have c: "''n_'' @ show_nat 0 = ''n_0''" by code_simp
  have "0 < max_call_depth ?eng \<and>
    (\<forall>raw \<in> set (input_lines ?input). trim raw \<noteq> [] \<longrightarrow>
        fst (getDepth raw) + 2 \<le> max_call_depth ?eng \<and>
        length (declared_tags raw) \<le> max_arguments ?eng)"
    unfolding ls by (simp add: b t)
  from parseText_within_limits [of ?eng ?input, THEN conjunct2, THEN conjunct2, rule_format, OF this]
  have w1: "within_limits ?eng ?input" .
  have w2: "\<not> within_limits ?small ?input" by code_simp
  from parseText_within_limits [of ?eng ?input, THEN conjunct1, rule_format, OF w1]
  obtain r m where
    pt: "parseText_run ?eng ?input = Inr (r, m)"
    and root: "id' (info r) = ''root''" "depth (info r) = - 1" "line (info r) = - 1"
    and tops: "\<forall>i < length (input_lines ?input).
        trim (input_lines ?input ! i) \<noteq> [] \<longrightarrow> fst (getDepth (input_lines ?input ! i)) = 0 \<longrightarrow>
        (\<exists>c \<in> set (children r).
           id' (info c) = ''n_'' @ show_nat i \<and> line (info c) = int i \<and> depth (info c) = 0)"
    by blast
  from tops [rule_format, of 0] ls a b(1)
  have "\<exists>c \<in> set (children r).
           id' (info c) = ''n_'' @ show_nat 0 \<and> line (info c) = int 0 \<and> depth (info c) = 0"
    by simp
  then have "\<exists>c \<in> set (children r). id' (info c) = ''n_0'' \<and> line (info c) = 0 \<and> depth (info c) = 0"
    unfolding c by simp
  with pt root have "\<exists>r m. parseText_run ?eng ?input = Inr (r, m) \<and>
     id' (info r) = ''root'' \<and> depth (info r) = - 1 \<and> line (info r) = - 1 \<and>
     (\<exists>c \<in> set (children r). id' (info c) = ''n_0'' \<and> line (info c) = 0 \<and> depth (info c) = 0)"
    by blast
  moreover
  from parseText_within_limits [of ?small ?input, THEN conjunct2, THEN conjunct1, rule_format, OF w2]
  have "parseText_run ?small ?input = Inl RangeError" .
  ultimately show ?thesis by (rule conjI)
qed

text \<open>
  Whatever room the engine has, there is an input that makes \<^verbatim>\<open>parseText\<close> throw: the outline
  that goes one level deeper with each line, for as many lines as calls of \<^verbatim>\<open>applyColor\<close>
  fit inside one another and one more.  With room for two calls these are the three lines
  \<^verbatim>\<open>x\<close>, TAB \<^verbatim>\<open>x\<close>, TAB TAB \<^verbatim>\<open>x\<close>.  A tags directive with one tag more than a call takes
  arguments does the same.
\<close>

theorem deep_outline_counterexample:
  "(\<forall>eng. parseText_run eng (deep_outline (max_call_depth eng)) = Inl RangeError) \<and>
   deep_outline 2 = ''x'' @ [LF, TAB] @ ''x'' @ [LF, TAB, TAB] @ ''x'' @ [LF] \<and>
   parseText_run \<lparr>max_call_depth = 2, max_arguments = 8\<rparr> (deep_outline 2) = Inl RangeError \<and>
   parseText_run \<lparr>max_call_depth = 8, max_arguments = 2\<rparr> (''w '' @ BS # ''tags{a,b,c}'') =
     Inl RangeError"
proof (intro conjI allI)
  fix eng
  show "parseText_run eng (deep_outline (max_call_depth eng)) = Inl RangeError"
    by (rule deep_outline_throws)
next
  show "deep_outline 2 = ''x'' @ [LF, TAB] @ ''x'' @ [LF, TAB, TAB] @ ''x'' @ [LF]" by code_simp
next
  have "case parseText_run \<lparr>max_call_depth = 2, max_arguments = 8\<rparr> (deep_outline 2) of
          Inl e \<Rightarrow> e = RangeError
        | Inr p \<Rightarrow> False"
    by code_simp
  then show "parseText_run \<lparr>max_call_depth = 2, max_arguments = 8\<rparr> (deep_outline 2) =
      Inl RangeError"
    by (simp split: sum.splits)
next
  have "case parseText_run \<lparr>max_call_depth = 8, max_arguments = 2\<rparr>
               (''w '' @ BS # ''tags{a,b,c}'') of
          Inl e \<Rightarrow> e = RangeError
        | Inr p \<Rightarrow> False"
    by code_simp
  then show "parseText_run \<lparr>max_call_depth = 8, max_arguments = 2\<rparr>
               (''w '' @ BS # ''tags{a,b,c}'') = Inl RangeError"
    by (simp split: sum.splits)
qed

end
